theory Spec2Isabelle
  imports Main "HOL-Library.Word"
begin

unbundle bit_operations_syntax

section \<open>Bytes, buffers and slices\<close>

text \<open>
  Go byte slices are views into backing arrays, and \<open>CryptBlocks(dst, src)\<close> may be called
  with \<open>dst\<close> and \<open>src\<close> being the same slice. The model therefore keeps an explicit store:
  a heap maps a buffer reference to the bytes of that buffer. The two slices a caller passes
  are whole buffers (\<open>Caller i\<close>, with capacity equal to length); the scratch buffers the
  code allocates with \<open>make\<close> are the locals \<open>tmp\<close> and \<open>D\<close>. A slice expression
  \<open>s[lo:hi]\<close> is a reference with two signed indices, checked when it is used: Go panics
  on a slice expression unless \<open>0 \<le> lo \<le> hi \<le> cap\<close>.
\<close>

type_synonym byte = "8 word"

datatype ref = Caller nat | Local nat

abbreviation tmp :: ref where "tmp \<equiv> Local 0"
abbreviation D :: ref where "D \<equiv> Local 1"

datatype slice = Slice ref int int

datatype error =
    InvalidMode
  | DataSizeTooSmall
  | SliceBoundsOutOfRange
  | IndexOutOfRange
  | IntegerDivideByZero
  | MakeSliceLenOutOfRange
  | InputNotFullBlocks
  | OutputSmallerThanInput
  | IVLengthMismatch

fun valid_slice :: "(ref \<Rightarrow> byte list) \<Rightarrow> slice \<Rightarrow> bool" where
  "valid_slice h (Slice r lo hi) = (0 \<le> lo \<and> lo \<le> hi \<and> hi \<le> int (length (h r)))"

fun slice_len :: "slice \<Rightarrow> nat" where
  "slice_len (Slice r lo hi) = nat (hi - lo)"

fun rd :: "(ref \<Rightarrow> byte list) \<Rightarrow> slice \<Rightarrow> byte list" where
  "rd h (Slice r lo hi) = take (nat (hi - lo)) (drop (nat lo) (h r))"

text \<open>Writing \<open>bs\<close> through a slice stores at most as many bytes as the slice is long.\<close>

fun wr :: "(ref \<Rightarrow> byte list) \<Rightarrow> slice \<Rightarrow> byte list \<Rightarrow> (ref \<Rightarrow> byte list)" where
  "wr h (Slice r lo hi) bs =
     (let k = min (nat (hi - lo)) (length bs)
      in h(r := take (nat lo) (h r) @ take k bs @ drop (nat lo + k) (h r)))"

section \<open>The block cipher and the CBC codec (package crypto/cipher)\<close>

text \<open>
  \<open>cipher.Block\<close> is the external block primitive: a block size and two functions that
  transform exactly one block. \<open>cipher.BlockMode\<close> is implemented by the CBC encrypter and
  the CBC decrypter of the standard library, each holding the block cipher and its current
  chaining value.
\<close>

record Block =
  BlockSize :: nat
  Encrypt :: "byte list \<Rightarrow> byte list"
  Decrypt :: "byte list \<Rightarrow> byte list"

datatype BlockMode = CBCEncrypter Block "byte list" | CBCDecrypter Block "byte list"

fun codec_BlockSize :: "BlockMode \<Rightarrow> nat" where
  "codec_BlockSize (CBCEncrypter b iv) = BlockSize b"
| "codec_BlockSize (CBCDecrypter b iv) = BlockSize b"

fun codec_iv :: "BlockMode \<Rightarrow> byte list" where
  "codec_iv (CBCEncrypter b iv) = iv"
| "codec_iv (CBCDecrypter b iv) = iv"

definition xorBytes :: "byte list \<Rightarrow> byte list \<Rightarrow> byte list" where
  "xorBytes x y = map2 (XOR) x y"

text \<open>
  The CBC loops run once per block; \<open>k\<close> is the number of blocks of the input. Each returns
  the output bytes and the chaining value to save for the next call.
\<close>

primrec cbc_encrypt :: "Block \<Rightarrow> nat \<Rightarrow> byte list \<Rightarrow> byte list \<Rightarrow> byte list \<times> byte list" where
  "cbc_encrypt blk 0 iv src = ([], iv)"
| "cbc_encrypt blk (Suc k) iv src =
     (let c = Encrypt blk (xorBytes (take (BlockSize blk) src) iv);
          r = cbc_encrypt blk k c (drop (BlockSize blk) src)
      in (c @ fst r, snd r))"

primrec cbc_decrypt :: "Block \<Rightarrow> nat \<Rightarrow> byte list \<Rightarrow> byte list \<Rightarrow> byte list \<times> byte list" where
  "cbc_decrypt blk 0 iv src = ([], iv)"
| "cbc_decrypt blk (Suc k) iv src =
     (let c = take (BlockSize blk) src;
          p = xorBytes (Decrypt blk c) iv;
          r = cbc_decrypt blk k c (drop (BlockSize blk) src)
      in (p @ fst r, snd r))"

definition NewCBCEncrypter :: "Block \<Rightarrow> byte list \<Rightarrow> error + BlockMode" where
  "NewCBCEncrypter b iv =
     (if length iv \<noteq> BlockSize b then Inl IVLengthMismatch else Inr (CBCEncrypter b iv))"

definition NewCBCDecrypter :: "Block \<Rightarrow> byte list \<Rightarrow> error + BlockMode" where
  "NewCBCDecrypter b iv =
     (if length iv \<noteq> BlockSize b then Inl IVLengthMismatch else Inr (CBCDecrypter b iv))"

section \<open>The transform object and its state\<close>

definition CS1 :: int where "CS1 = 1"
definition CS2 :: int where "CS2 = 2"
definition CS3 :: int where "CS3 = 3"

record cbccts =
  encoder :: bool
  block :: Block
  codec :: BlockMode
  mode :: int

record world =
  heap :: "ref \<Rightarrow> byte list"
  self :: cbccts

text \<open>
  A statement of the program is a step: it takes the world and returns the world it leaves
  behind together with the panic it raised, if any. A panic stops the sequence and keeps
  the world as it was at that point, so that what was written before is visible.
\<close>

type_synonym step = "world \<Rightarrow> error option \<times> world"

definition panic :: "error \<Rightarrow> step" where
  "panic e w = (Some e, w)"

definition ret :: step where
  "ret w = (None, w)"

fun seq :: "step list \<Rightarrow> step" where
  "seq [] w = (None, w)"
| "seq (f # fs) w = (case f w of (None, w') \<Rightarrow> seq fs w' | (Some e, w') \<Rightarrow> (Some e, w'))"

definition make_bytes :: "ref \<Rightarrow> int \<Rightarrow> step" where
  "make_bytes r n w =
     (if n < 0 then panic MakeSliceLenOutOfRange w
      else (None, w\<lparr>heap := (heap w)(r := replicate (nat n) 0)\<rparr>))"

definition copy :: "slice \<Rightarrow> slice \<Rightarrow> step" where
  "copy d s w =
     (if valid_slice (heap w) d \<and> valid_slice (heap w) s
      then (None, w\<lparr>heap := wr (heap w) d (rd (heap w) s)\<rparr>)
      else panic SliceBoundsOutOfRange w)"

text \<open>\<open>a[i] = b[j]\<close>\<close>

definition assign_index :: "ref \<Rightarrow> int \<Rightarrow> ref \<Rightarrow> int \<Rightarrow> step" where
  "assign_index a i b j w =
     (if 0 \<le> i \<and> i < int (length (heap w a)) \<and> 0 \<le> j \<and> j < int (length (heap w b))
      then (None, w\<lparr>heap := (heap w)(a := (heap w a)[nat i := heap w b ! nat j])\<rparr>)
      else panic IndexOutOfRange w)"

text \<open>
  \<open>CryptBlocks\<close> of the CBC codec: the source must be whole blocks and the destination at
  least as long; the two slices overlap entirely or not at all, so the result is the CBC
  transform of the bytes the source held when the call started.
\<close>

definition codec_CryptBlocks :: "slice \<Rightarrow> slice \<Rightarrow> step" where
  "codec_CryptBlocks d s w =
     (if \<not> (valid_slice (heap w) d \<and> valid_slice (heap w) s) then panic SliceBoundsOutOfRange w
      else
        let src = rd (heap w) s;
            b = codec_BlockSize (codec (self w))
        in if b = 0 then panic IntegerDivideByZero w
           else if length src mod b \<noteq> 0 then panic InputNotFullBlocks w
           else if slice_len d < length src then panic OutputSmallerThanInput w
           else (case codec (self w) of
                   CBCEncrypter blk iv \<Rightarrow>
                     (let r = cbc_encrypt blk (length src div b) iv src
                      in (None, w\<lparr>heap := wr (heap w) d (fst r),
                                  self := (self w)\<lparr>codec := CBCEncrypter blk (snd r)\<rparr>\<rparr>))
                 | CBCDecrypter blk iv \<Rightarrow>
                     (let r = cbc_decrypt blk (length src div b) iv src
                      in (None, w\<lparr>heap := wr (heap w) d (fst r),
                                  self := (self w)\<lparr>codec := CBCDecrypter blk (snd r)\<rparr>\<rparr>))))"

text \<open>\<open>cd.block.Decrypt(dst, src)\<close>: single-block decryption, no chaining.\<close>

definition block_Decrypt :: "slice \<Rightarrow> slice \<Rightarrow> step" where
  "block_Decrypt d s w =
     (if valid_slice (heap w) d \<and> valid_slice (heap w) s
      then (None, w\<lparr>heap := wr (heap w) d
                       (Decrypt (block (self w)) (take (BlockSize (block (self w))) (rd (heap w) s)))\<rparr>)
      else panic SliceBoundsOutOfRange w)"

section \<open>Constructors\<close>

definition NewCBCCTSEncrypter :: "Block \<Rightarrow> byte list \<Rightarrow> int \<Rightarrow> error + cbccts" where
  "NewCBCCTSEncrypter b iv m =
     (if m < CS1 \<or> m > CS3 then Inl InvalidMode
      else (case NewCBCEncrypter b iv of
              Inl e \<Rightarrow> Inl e
            | Inr c \<Rightarrow> Inr \<lparr>encoder = True, block = b, codec = c, mode = m\<rparr>))"

definition NewCBCCTSDecrypter :: "Block \<Rightarrow> byte list \<Rightarrow> int \<Rightarrow> error + cbccts" where
  "NewCBCCTSDecrypter b iv m =
     (if m < CS1 \<or> m > CS3 then Inl InvalidMode
      else (case NewCBCDecrypter b iv of
              Inl e \<Rightarrow> Inl e
            | Inr c \<Rightarrow> Inr \<lparr>encoder = False, block = b, codec = c, mode = m\<rparr>))"

section \<open>encode\<close>

definition encode :: "ref \<Rightarrow> ref \<Rightarrow> step" where
  "encode dst src w =
     (let cd = self w;
          blocksz = int (codec_BlockSize (codec cd));
          textlen = int (length (heap w src));
          dstlen = int (length (heap w dst))
      in if blocksz = 0 then panic IntegerDivideByZero w
         else
           (let leftover = textlen mod blocksz
            in if leftover = 0 then
                 seq [codec_CryptBlocks (Slice dst 0 dstlen) (Slice src 0 textlen),
                      (if mode cd = CS1 \<or> mode cd = CS2 then ret
                       else if mode cd = CS3 then
                         (let py = textlen - 2 * blocksz; pz = textlen - blocksz
                          in seq [make_bytes tmp blocksz,
                                  copy (Slice tmp 0 blocksz) (Slice dst py pz),
                                  copy (Slice dst py pz) (Slice dst pz dstlen),
                                  copy (Slice dst pz dstlen) (Slice tmp 0 blocksz)])
                       else panic InvalidMode)] w
               else
                 (let padding = blocksz - leftover;
                      buflen = textlen + padding;
                      py = buflen - 2 * blocksz;
                      pz = buflen - blocksz
                  in if py < 0 then panic DataSizeTooSmall w
                     else
                       seq [codec_CryptBlocks (Slice dst 0 py) (Slice src 0 py),
                            make_bytes tmp (2 * blocksz),
                            copy (Slice tmp 0 (blocksz + leftover)) (Slice src py textlen),
                            codec_CryptBlocks (Slice tmp 0 (2 * blocksz)) (Slice tmp 0 (2 * blocksz)),
                            (if mode cd = CS1 then
                               seq [copy (Slice dst py (py + leftover)) (Slice tmp 0 leftover),
                                    copy (Slice dst (py + leftover) dstlen) (Slice tmp blocksz (2 * blocksz))]
                             else if mode cd = CS2 \<or> mode cd = CS3 then
                               seq [copy (Slice dst py pz) (Slice tmp blocksz (2 * blocksz)),
                                    copy (Slice dst pz dstlen) (Slice tmp 0 leftover)]
                             else ret)] w)))"

section \<open>decode\<close>

text \<open>
  The unaligned path of \<open>decode\<close> up to, but not including, the final chained decryption:
  it leaves the two-block scratch buffer \<open>tmp\<close> ready.
\<close>

definition decode_scratch :: "ref \<Rightarrow> ref \<Rightarrow> int \<Rightarrow> int \<Rightarrow> int \<Rightarrow> int \<Rightarrow> int \<Rightarrow> int \<Rightarrow> step list" where
  "decode_scratch dst src m blocksz leftover textlen py pz =
     [codec_CryptBlocks (Slice dst 0 py) (Slice src 0 py),
      make_bytes tmp (2 * blocksz),
      (if m = CS1 then
         seq [copy (Slice tmp 0 leftover) (Slice src py (py + leftover)),
              copy (Slice tmp blocksz (2 * blocksz)) (Slice src (py + leftover) textlen)]
       else if m = CS2 \<or> m = CS3 then
         seq [copy (Slice tmp 0 leftover) (Slice src pz textlen),
              copy (Slice tmp blocksz (2 * blocksz)) (Slice src py pz)]
       else panic InvalidMode),
      make_bytes D blocksz,
      block_Decrypt (Slice D 0 blocksz) (Slice tmp blocksz (2 * blocksz)),
      seq (map (\<lambda>i. assign_index tmp (int i) D (int i)) [nat leftover..<nat blocksz])]"

definition decode :: "ref \<Rightarrow> ref \<Rightarrow> step" where
  "decode dst src w =
     (let cd = self w;
          blocksz = int (codec_BlockSize (codec cd));
          textlen = int (length (heap w src));
          dstlen = int (length (heap w dst))
      in if blocksz = 0 then panic IntegerDivideByZero w
         else
           (let leftover = textlen mod blocksz
            in if leftover = 0 then
                 (if mode cd = CS1 \<or> mode cd = CS2 then
                    codec_CryptBlocks (Slice dst 0 dstlen) (Slice src 0 textlen) w
                  else if mode cd = CS3 then
                    (let py = textlen - 2 * blocksz; pz = textlen - blocksz
                     in seq [copy (Slice dst 0 py) (Slice src 0 py),
                             copy (Slice dst py pz) (Slice src pz textlen),
                             copy (Slice dst pz dstlen) (Slice src py pz),
                             codec_CryptBlocks (Slice dst 0 dstlen) (Slice dst 0 dstlen)] w)
                  else panic InvalidMode w)
               else
                 (let padding = blocksz - leftover;
                      buflen = textlen + padding;
                      py = buflen - 2 * blocksz;
                      pz = buflen - blocksz
                  in if py < 0 then panic DataSizeTooSmall w
                     else
                       seq (decode_scratch dst src (mode cd) blocksz leftover textlen py pz @
                            [codec_CryptBlocks (Slice tmp 0 (2 * blocksz)) (Slice tmp 0 (2 * blocksz)),
                             copy (Slice dst py dstlen) (Slice tmp 0 (2 * blocksz))]) w)))"

section \<open>CryptBlocks and its use by a caller\<close>

definition CryptBlocks :: "ref \<Rightarrow> ref \<Rightarrow> step" where
  "CryptBlocks dst src w = (if encoder (self w) then encode dst src w else decode dst src w)"

text \<open>
  The way the example and the test of the repository call the transform: the data is one
  buffer (\<open>Caller 0\<close>), a destination buffer of the same length is allocated (\<open>Caller 1\<close>) and
  \<open>CryptBlocks\<close> fills it. The result of \<open>process\<close> is the panic (if any), the destination
  bytes and the transform object with its advanced chaining value. \<open>process_inplace\<close> passes
  the data buffer as destination too.
\<close>

definition start_world :: "cbccts \<Rightarrow> byte list \<Rightarrow> world" where
  "start_world cd data =
     \<lparr>heap = (\<lambda>r. [])(Caller 0 := data, Caller 1 := replicate (length data) 0), self = cd\<rparr>"

definition process :: "cbccts \<Rightarrow> byte list \<Rightarrow> error option \<times> byte list \<times> cbccts" where
  "process cd data =
     (let r = CryptBlocks (Caller 1) (Caller 0) (start_world cd data)
      in (fst r, heap (snd r) (Caller 1), self (snd r)))"

definition process_inplace :: "cbccts \<Rightarrow> byte list \<Rightarrow> error option \<times> byte list \<times> cbccts" where
  "process_inplace cd data =
     (let h0 = (\<lambda>r. [])(Caller 0 := data);
          r = CryptBlocks (Caller 0) (Caller 0) \<lparr>heap = h0, self = cd\<rparr>
      in (fst r, heap (snd r) (Caller 0), self (snd r)))"

text \<open>
  What the theorems assume of the block primitive: a positive block size, block-to-block
  functions, and decryption undoing encryption.
\<close>

definition block_ok :: "Block \<Rightarrow> bool" where
  "block_ok blk \<longleftrightarrow>
     0 < BlockSize blk \<and>
     (\<forall>x. length x = BlockSize blk \<longrightarrow>
          length (Encrypt blk x) = BlockSize blk \<and>
          length (Decrypt blk x) = BlockSize blk \<and>
          Decrypt blk (Encrypt blk x) = x)"

text \<open>
  The example of the repository: encrypt with a fresh encrypter, decrypt the result with a
  fresh decrypter made from the same cipher, IV and format, and compare with the data.
\<close>

definition roundtrip :: "Block \<Rightarrow> byte list \<Rightarrow> int \<Rightarrow> byte list \<Rightarrow> bool" where
  "roundtrip blk iv m data =
     (case NewCBCCTSEncrypter blk iv m of
        Inl e \<Rightarrow> False
      | Inr modeEnc \<Rightarrow>
          (case NewCBCCTSDecrypter blk iv m of
             Inl e \<Rightarrow> False
           | Inr modeDec \<Rightarrow>
               (case process modeEnc data of
                  (Some e, encoded, cd') \<Rightarrow> False
                | (None, encoded, cd') \<Rightarrow>
                    (case process modeDec encoded of
                       (Some e, decoded, cd'') \<Rightarrow> False
                     | (None, decoded, cd'') \<Rightarrow> decoded = data))))"

text \<open>
  The specification's wording of the CS3 layout of aligned data: the ciphertext with its last
  two blocks of \<open>b\<close> bytes exchanged.
\<close>

definition swap_last_two_blocks :: "nat \<Rightarrow> byte list \<Rightarrow> byte list" where
  "swap_last_two_blocks b xs =
     take (length xs - 2 * b) xs @ drop (length xs - b) xs @ take b (drop (length xs - 2 * b) xs)"

text \<open>A slice expression whose two indices are known to be natural numbers.\<close>

definition nslice :: "ref \<Rightarrow> nat \<Rightarrow> nat \<Rightarrow> slice" where
  "nslice r lo hi = Slice r (int lo) (int hi)"

text \<open>
  Two worlds that differ in the format of the transform object only, and the steps whose
  effect does not depend on that format.
\<close>

definition set_mode :: "int \<Rightarrow> world \<Rightarrow> world" where
  "set_mode m w = w\<lparr>self := (self w)\<lparr>mode := m\<rparr>\<rparr>"

definition mode_blind :: "step \<Rightarrow> bool" where
  "mode_blind f \<longleftrightarrow> (\<forall>m w. f (set_mode m w) = (fst (f w), set_mode m (snd (f w))))"

text \<open>A two-byte toy cipher for concrete evaluations.\<close>

definition toy :: Block where
  "toy = \<lparr>BlockSize = 2,
          Encrypt = (\<lambda>x. map (\<lambda>v. v + 7) (rev x)),
          Decrypt = (\<lambda>x. rev (map (\<lambda>v. v - 7) x))\<rparr>"


section \<open>Chained encryption and decryption\<close>


lemma length_xorBytes [simp]: "length (xorBytes x y) = min (length x) (length y)"
  by (simp add: xorBytes_def)

lemma xorBytes_cancel: "length x = length y \<Longrightarrow> xorBytes (xorBytes x y) y = x"
proof (induction x arbitrary: y)
  case Nil
  then show ?case by (simp add: xorBytes_def)
next
  case (Cons a x)
  then obtain c y' where y: "y = c # y'" by (cases y) auto
  with Cons show ?case by (simp add: xorBytes_def xor.assoc)
qed

lemma drop_xorBytes: "drop n (xorBytes x y) = xorBytes (drop n x) (drop n y)"
  by (simp add: xorBytes_def drop_map drop_zip)

lemma xorBytes_zeros: "n \<le> length y \<Longrightarrow> xorBytes (replicate n 0) y = take n y"
proof (induction n arbitrary: y)
  case 0
  then show ?case by (simp add: xorBytes_def)
next
  case (Suc n)
  then obtain c y' where y: "y = c # y'" by (cases y) auto
  with Suc show ?case by (simp add: xorBytes_def)
qed

lemma cbc_encrypt_length:
  "block_ok blk \<Longrightarrow> length iv = BlockSize blk \<Longrightarrow> k * BlockSize blk \<le> length src \<Longrightarrow>
   length (fst (cbc_encrypt blk k iv src)) = k * BlockSize blk \<and>
   length (snd (cbc_encrypt blk k iv src)) = BlockSize blk"
proof (induction k arbitrary: iv src)
  case 0
  then show ?case by simp
next
  case (Suc k)
  let ?b = "BlockSize blk"
  let ?c = "Encrypt blk (xorBytes (take ?b src) iv)"
  from Suc.prems have len: "?b \<le> length src" by simp
  with Suc.prems have lc: "length ?c = ?b" by (simp add: block_ok_def)
  from Suc.prems have "k * ?b \<le> length (drop ?b src)" by simp
  from Suc.IH[OF Suc.prems(1) lc this] lc show ?case by (simp add: Let_def)
qed

lemma cbc_decrypt_length:
  "block_ok blk \<Longrightarrow> length iv = BlockSize blk \<Longrightarrow> k * BlockSize blk \<le> length src \<Longrightarrow>
   length (fst (cbc_decrypt blk k iv src)) = k * BlockSize blk \<and>
   length (snd (cbc_decrypt blk k iv src)) = BlockSize blk"
proof (induction k arbitrary: iv src)
  case 0
  then show ?case by simp
next
  case (Suc k)
  let ?b = "BlockSize blk"
  let ?c = "take ?b src"
  from Suc.prems have len: "?b \<le> length src" by simp
  then have lc: "length ?c = ?b" by simp
  with Suc.prems have lp: "length (xorBytes (Decrypt blk ?c) iv) = ?b" by (simp add: block_ok_def)
  from Suc.prems have "k * ?b \<le> length (drop ?b src)" by simp
  from Suc.IH[OF Suc.prems(1) lc this] lp show ?case by (simp add: Let_def)
qed

lemma cbc_encrypt_append:
  "length xs = j * BlockSize blk \<Longrightarrow>
   cbc_encrypt blk (j + k) iv (xs @ ys) =
     (fst (cbc_encrypt blk j iv xs) @ fst (cbc_encrypt blk k (snd (cbc_encrypt blk j iv xs)) ys),
      snd (cbc_encrypt blk k (snd (cbc_encrypt blk j iv xs)) ys))"
proof (induction j arbitrary: iv xs)
  case 0
  then show ?case by simp
next
  case (Suc j)
  let ?b = "BlockSize blk"
  from Suc.prems have "length (drop ?b xs) = j * ?b" by simp
  from Suc.IH[OF this] Suc.prems show ?case by (simp add: Let_def)
qed

lemma cbc_decrypt_append:
  "length xs = j * BlockSize blk \<Longrightarrow>
   cbc_decrypt blk (j + k) iv (xs @ ys) =
     (fst (cbc_decrypt blk j iv xs) @ fst (cbc_decrypt blk k (snd (cbc_decrypt blk j iv xs)) ys),
      snd (cbc_decrypt blk k (snd (cbc_decrypt blk j iv xs)) ys))"
proof (induction j arbitrary: iv xs)
  case 0
  then show ?case by simp
next
  case (Suc j)
  let ?b = "BlockSize blk"
  from Suc.prems have "length (drop ?b xs) = j * ?b" by simp
  from Suc.IH[OF this] Suc.prems show ?case by (simp add: Let_def)
qed

lemma cbc_roundtrip:
  "block_ok blk \<Longrightarrow> length iv = BlockSize blk \<Longrightarrow> length src = k * BlockSize blk \<Longrightarrow>
   cbc_decrypt blk k iv (fst (cbc_encrypt blk k iv src)) = (src, snd (cbc_encrypt blk k iv src))"
proof (induction k arbitrary: iv src)
  case 0
  then show ?case by simp
next
  case (Suc k)
  let ?b = "BlockSize blk"
  let ?x = "xorBytes (take ?b src) iv"
  let ?c = "Encrypt blk ?x"
  from Suc.prems have lx: "length ?x = ?b" by simp
  with Suc.prems have lc: "length ?c = ?b" and dc: "Decrypt blk ?c = ?x"
    by (simp_all add: block_ok_def)
  from Suc.prems have ld: "length (drop ?b src) = k * ?b" by simp
  have xx: "xorBytes ?x iv = take ?b src"
    using Suc.prems by (intro xorBytes_cancel) simp
  from Suc.IH[OF Suc.prems(1) lc ld] lc dc xx show ?case by (simp add: Let_def)
qed



lemma valid_nslice: "valid_slice h (nslice r lo hi) = (lo \<le> hi \<and> hi \<le> length (h r))"
  by (simp add: nslice_def)

lemma slice_len_nslice: "slice_len (nslice r lo hi) = hi - lo"
  by (simp add: nslice_def nat_diff_distrib')

lemma rd_nslice: "rd h (nslice r lo hi) = take (hi - lo) (drop lo (h r))"
  by (simp add: nslice_def nat_diff_distrib')

lemma wr_nslice:
  "wr h (nslice r lo hi) bs =
     h(r := take lo (h r) @ take (min (hi - lo) (length bs)) bs @
            drop (lo + min (hi - lo) (length bs)) (h r))"
  by (simp add: nslice_def nat_diff_distrib' Let_def)

lemmas nslice_simps = valid_nslice slice_len_nslice rd_nslice wr_nslice

lemma seq_Cons_ok: "f w = (None, w') \<Longrightarrow> seq (f # fs) w = seq fs w'"
  by simp

lemma seq_append: "seq (fs @ gs) w = (case seq fs w of (None, w') \<Rightarrow> seq gs w' | (Some e, w') \<Rightarrow> (Some e, w'))"
  by (induction fs arbitrary: w) (auto split: prod.splits option.splits)

lemma make_ok: "make_bytes r (int n) \<lparr>heap = h, self = cd\<rparr> = (None, \<lparr>heap = h(r := replicate n 0), self = cd\<rparr>)"
  by (simp add: make_bytes_def)

lemma copy_ok:
  "dlo \<le> dhi \<Longrightarrow> dhi \<le> length (h d) \<Longrightarrow> slo \<le> shi \<Longrightarrow> shi \<le> length (h s) \<Longrightarrow>
   dhi - dlo \<le> shi - slo \<Longrightarrow>
   copy (nslice d dlo dhi) (nslice s slo shi) \<lparr>heap = h, self = cd\<rparr> =
     (None, \<lparr>heap = h(d := take dlo (h d) @ take (dhi - dlo) (drop slo (h s)) @ drop dhi (h d)),
             self = cd\<rparr>)"
  by (simp add: copy_def nslice_simps min_def)

lemma codec_CryptBlocks_enc_ok:
  assumes "codec cd = CBCEncrypter blk iv" "block_ok blk" "length iv = BlockSize blk"
    and "hi = k * BlockSize blk" "hi \<le> length (h d)" "hi \<le> length (h s)"
  shows "codec_CryptBlocks (nslice d 0 hi) (nslice s 0 hi) \<lparr>heap = h, self = cd\<rparr> =
     (None, \<lparr>heap = h(d := fst (cbc_encrypt blk k iv (take hi (h s))) @ drop hi (h d)),
             self = cd\<lparr>codec := CBCEncrypter blk (snd (cbc_encrypt blk k iv (take hi (h s))))\<rparr>\<rparr>)"
proof -
  let ?b = "BlockSize blk"
  have b: "0 < ?b" using assms(2) by (simp add: block_ok_def)
  define x where "x = take hi (h s)"
  have lt: "length x = hi" using assms by (simp add: x_def)
  have lo: "length (fst (cbc_encrypt blk k iv x)) = hi"
    using cbc_encrypt_length[OF assms(2,3), of k x] lt assms(4) by simp
  have rdx: "rd h (nslice s 0 hi) = x" by (simp add: rd_nslice x_def)
  have kk: "hi div ?b = k" "hi mod ?b = 0" using assms(4) b by simp_all
  show ?thesis
    unfolding x_def[symmetric]
    using assms(1,5,6) b lo lt kk
    by (simp add: codec_CryptBlocks_def Let_def rdx valid_nslice slice_len_nslice wr_nslice panic_def)
qed

lemma codec_CryptBlocks_dec_ok:
  assumes "codec cd = CBCDecrypter blk iv" "block_ok blk" "length iv = BlockSize blk"
    and "hi = k * BlockSize blk" "hi \<le> length (h d)" "hi \<le> length (h s)"
  shows "codec_CryptBlocks (nslice d 0 hi) (nslice s 0 hi) \<lparr>heap = h, self = cd\<rparr> =
     (None, \<lparr>heap = h(d := fst (cbc_decrypt blk k iv (take hi (h s))) @ drop hi (h d)),
             self = cd\<lparr>codec := CBCDecrypter blk (snd (cbc_decrypt blk k iv (take hi (h s))))\<rparr>\<rparr>)"
proof -
  let ?b = "BlockSize blk"
  have b: "0 < ?b" using assms(2) by (simp add: block_ok_def)
  define x where "x = take hi (h s)"
  have lt: "length x = hi" using assms by (simp add: x_def)
  have lo: "length (fst (cbc_decrypt blk k iv x)) = hi"
    using cbc_decrypt_length[OF assms(2,3), of k x] lt assms(4) by simp
  have rdx: "rd h (nslice s 0 hi) = x" by (simp add: rd_nslice x_def)
  have kk: "hi div ?b = k" "hi mod ?b = 0" using assms(4) b by simp_all
  show ?thesis
    unfolding x_def[symmetric]
    using assms(1,5,6) b lo lt kk
    by (simp add: codec_CryptBlocks_def Let_def rdx valid_nslice slice_len_nslice wr_nslice panic_def)
qed



lemma cbc_encrypt_length_fst [simp]:
  "block_ok blk \<Longrightarrow> length iv = BlockSize blk \<Longrightarrow> k * BlockSize blk \<le> length src \<Longrightarrow>
   length (fst (cbc_encrypt blk k iv src)) = k * BlockSize blk"
  using cbc_encrypt_length by blast

lemma cbc_encrypt_length_snd [simp]:
  "block_ok blk \<Longrightarrow> length iv = BlockSize blk \<Longrightarrow> k * BlockSize blk \<le> length src \<Longrightarrow>
   length (snd (cbc_encrypt blk k iv src)) = BlockSize blk"
  using cbc_encrypt_length by blast

lemma cbc_decrypt_length_fst [simp]:
  "block_ok blk \<Longrightarrow> length iv = BlockSize blk \<Longrightarrow> k * BlockSize blk \<le> length src \<Longrightarrow>
   length (fst (cbc_decrypt blk k iv src)) = k * BlockSize blk"
  using cbc_decrypt_length by blast

lemma cbc_decrypt_length_snd [simp]:
  "block_ok blk \<Longrightarrow> length iv = BlockSize blk \<Longrightarrow> k * BlockSize blk \<le> length src \<Longrightarrow>
   length (snd (cbc_decrypt blk k iv src)) = BlockSize blk"
  using cbc_decrypt_length by blast

lemma int_mod_leftover: "0 < b \<Longrightarrow> r < b \<Longrightarrow> int (k * b + b + r) mod int b = int r"
proof -
  assume "0 < b" "r < b"
  have "k * b + b + r = r + Suc k * b" by simp
  then have "(k * b + b + r) mod b = r mod b" by (simp only: mod_mult_self1)
  with \<open>r < b\<close> have "(k * b + b + r) mod b = r" by simp
  then show ?thesis by (metis zmod_int)
qed

lemma encode_unaligned_steps:
  assumes "codec_BlockSize (codec cd) = b" "0 < r" "r < b"
    and "length (h src) = k * b + b + r" "length (h dst) = n"
  shows "encode dst src \<lparr>heap = h, self = cd\<rparr> =
     seq [codec_CryptBlocks (nslice dst 0 (k * b)) (nslice src 0 (k * b)),
          make_bytes tmp (int (2 * b)),
          copy (nslice tmp 0 (b + r)) (nslice src (k * b) (k * b + b + r)),
          codec_CryptBlocks (nslice tmp 0 (2 * b)) (nslice tmp 0 (2 * b)),
          (if mode cd = CS1 then
             seq [copy (nslice dst (k * b) (k * b + r)) (nslice tmp 0 r),
                  copy (nslice dst (k * b + r) n) (nslice tmp b (2 * b))]
           else if mode cd = CS2 \<or> mode cd = CS3 then
             seq [copy (nslice dst (k * b) (k * b + b)) (nslice tmp b (2 * b)),
                  copy (nslice dst (k * b + b) n) (nslice tmp 0 r)]
           else ret)] \<lparr>heap = h, self = cd\<rparr>"
proof -
  have b0: "0 < b" using assms by simp
  note lo = int_mod_leftover[OF b0 assms(3), of k]
  have nz: "int b \<noteq> 0" "int r \<noteq> 0" using assms b0 by simp_all
  have s1: "Slice dst 0 (int (k * b + b + r) + (int b - int r) - 2 * int b) = nslice dst 0 (k * b)"
    and s2: "Slice src 0 (int (k * b + b + r) + (int b - int r) - 2 * int b) = nslice src 0 (k * b)"
    and s3: "Slice tmp 0 (int b + int r) = nslice tmp 0 (b + r)"
    and s4: "Slice src (int (k * b + b + r) + (int b - int r) - 2 * int b) (int (k * b + b + r))
               = nslice src (k * b) (k * b + b + r)"
    and s5: "Slice tmp 0 (2 * int b) = nslice tmp 0 (2 * b)"
    and s6: "Slice dst (int (k * b + b + r) + (int b - int r) - 2 * int b)
               (int (k * b + b + r) + (int b - int r) - 2 * int b + int r) = nslice dst (k * b) (k * b + r)"
    and s7: "Slice tmp 0 (int r) = nslice tmp 0 r"
    and s8: "Slice dst (int (k * b + b + r) + (int b - int r) - 2 * int b + int r) (int n)
               = nslice dst (k * b + r) n"
    and s9: "Slice tmp (int b) (2 * int b) = nslice tmp b (2 * b)"
    and s10: "Slice dst (int (k * b + b + r) + (int b - int r) - 2 * int b)
               (int (k * b + b + r) + (int b - int r) - int b) = nslice dst (k * b) (k * b + b)"
    and s11: "Slice dst (int (k * b + b + r) + (int b - int r) - int b) (int n) = nslice dst (k * b + b) n"
    by (simp_all add: nslice_def)
  have m: "2 * int b = int (2 * b)" by simp
  have "int (k * b + b + r) + (int b - int r) - 2 * int b = int (k * b)" by simp
  then have py: "\<not> int (k * b + b + r) + (int b - int r) - 2 * int b < 0" by (simp only: of_nat_less_0_iff not_False_eq_True)
  show ?thesis
    unfolding encode_def Let_def
    apply (simp only: world.simps assms lo nz py if_False s1 s2 s3 s4 s5 s6 s7 s8 s9 s10 s11)
    apply (simp only: m)
    done
qed



lemma cbc_encrypt_two:
  assumes "block_ok blk" "length iv = BlockSize blk" "length x = BlockSize blk"
  shows "cbc_encrypt blk 2 iv (x @ y) =
     (Encrypt blk (xorBytes x iv) @ Encrypt blk (xorBytes (take (BlockSize blk) y) (Encrypt blk (xorBytes x iv))),
      Encrypt blk (xorBytes (take (BlockSize blk) y) (Encrypt blk (xorBytes x iv))))"
  using assms by (simp add: numeral_2_eq_2 Let_def)

lemma cbc_decrypt_two:
  assumes "length x = BlockSize blk"
  shows "cbc_decrypt blk 2 iv (x @ y) =
     (xorBytes (Decrypt blk x) iv @ xorBytes (Decrypt blk (take (BlockSize blk) y)) x,
      take (BlockSize blk) y)"
  using assms by (simp add: numeral_2_eq_2 Let_def)

lemma encode_unaligned_run:
  assumes cd: "codec cd = CBCEncrypter blk iv" "block_ok blk" "length iv = b" "BlockSize blk = b"
    and m: "mode cd = CS1 \<or> mode cd = CS2 \<or> mode cd = CS3"
    and data: "length pre = k * b" "length pm = b" "length pt = r" "0 < r" "r < b"
    and iv1: "iv1 = snd (cbc_encrypt blk k iv pre)"
    and E1: "E1 = Encrypt blk (xorBytes pm iv1)"
    and E2: "E2 = Encrypt blk (xorBytes (pt @ replicate (b - r) 0) E1)"
  shows "\<exists>h'. encode (Caller 1) (Caller 0) (start_world cd (pre @ pm @ pt)) =
               (None, \<lparr>heap = h', self = cd\<lparr>codec := CBCEncrypter blk E2\<rparr>\<rparr>) \<and>
              h' (Caller 1) =
                fst (cbc_encrypt blk k iv pre) @ (if mode cd = CS1 then take r E1 @ E2 else E2 @ take r E1) \<and>
              h' tmp = E1 @ E2"
proof -
  let ?dst = "Caller 1" and ?src = "Caller 0"
  let ?n = "k * b + b + r"
  define cpre where "cpre = fst (cbc_encrypt blk k iv pre)"
  define h0 where "h0 = (\<lambda>r. [])(?src := pre @ pm @ pt, ?dst := replicate ?n 0)"
  define cd1 where "cd1 = cd\<lparr>codec := CBCEncrypter blk iv1\<rparr>"
  define cd2 where "cd2 = cd\<lparr>codec := CBCEncrypter blk E2\<rparr>"
  define h1 where "h1 = h0(?dst := cpre @ replicate (b + r) 0)"
  define h2 where "h2 = h1(tmp := replicate (2 * b) 0)"
  define h3 where "h3 = h2(tmp := pm @ pt @ replicate (b - r) 0)"
  define h4 where "h4 = h3(tmp := E1 @ E2)"
  have b0: "0 < b" using data by simp
  have liv1: "length iv1 = b" using cd data by (simp add: iv1)
  have lcpre: "length cpre = k * b" using cd data by (simp add: cpre_def)
  have lE1: "length E1 = b" using cd data liv1 by (simp add: E1 block_ok_def)
  have lE2: "length E2 = b" using cd data lE1 by (simp add: E2 block_ok_def)
  have bs: "codec_BlockSize (codec cd) = b" using cd by simp
  have st1: "codec_CryptBlocks (nslice ?dst 0 (k * b)) (nslice ?src 0 (k * b)) \<lparr>heap = h0, self = cd\<rparr>
             = (None, \<lparr>heap = h1, self = cd1\<rparr>)"
    using codec_CryptBlocks_enc_ok[where cd=cd and blk=blk and iv=iv and k=k and hi="k * b"
                                      and h=h0 and d="?dst" and s="?src"] cd data
    by (simp add: h0_def h1_def cd1_def iv1 cpre_def replicate_add[symmetric])
  have st2: "make_bytes tmp (int (2 * b)) \<lparr>heap = h1, self = cd1\<rparr> = (None, \<lparr>heap = h2, self = cd1\<rparr>)"
    unfolding h2_def by (rule make_ok)
  have st3: "copy (nslice tmp 0 (b + r)) (nslice ?src (k * b) (k * b + b + r)) \<lparr>heap = h2, self = cd1\<rparr>
             = (None, \<lparr>heap = h3, self = cd1\<rparr>)"
    using copy_ok[where d=tmp and dlo=0 and dhi="b + r" and s="?src" and slo="k * b" and shi="k * b + b + r"
                    and h=h2 and cd=cd1] data
    by (simp add: h0_def h1_def h2_def h3_def)
  have e2: "cbc_encrypt blk 2 iv1 (pm @ pt @ replicate (b - r) 0) = (E1 @ E2, E2)"
    using cbc_encrypt_two[where blk=blk and iv=iv1 and x=pm and y="pt @ replicate (b - r) 0"] cd data liv1
    by (simp add: E1 E2)
  have st4: "codec_CryptBlocks (nslice tmp 0 (2 * b)) (nslice tmp 0 (2 * b)) \<lparr>heap = h3, self = cd1\<rparr>
             = (None, \<lparr>heap = h4, self = cd2\<rparr>)"
    using codec_CryptBlocks_enc_ok[where cd=cd1 and blk=blk and iv=iv1 and k=2 and hi="2 * b"
                                      and h=h3 and d=tmp and s=tmp] cd data liv1 e2
    by (simp add: h3_def h4_def cd1_def cd2_def)
  have h4dst: "h4 ?dst = cpre @ replicate (b + r) 0" and h4tmp: "h4 tmp = E1 @ E2"
    by (simp_all add: h4_def h3_def h2_def h1_def)
  define h5a where "h5a = h4(?dst := cpre @ take r E1 @ replicate b 0)"
  define h5b where "h5b = h4(?dst := cpre @ E2 @ replicate r 0)"
  have st5a: "copy (nslice ?dst (k * b) (k * b + r)) (nslice tmp 0 r) \<lparr>heap = h4, self = cd2\<rparr>
             = (None, \<lparr>heap = h5a, self = cd2\<rparr>)"
    using data lcpre lE1 lE2 h4dst h4tmp
    by (simp add: copy_ok h5a_def)
  have st6a: "copy (nslice ?dst (k * b + r) ?n) (nslice tmp b (2 * b)) \<lparr>heap = h5a, self = cd2\<rparr>
             = (None, \<lparr>heap = h4(?dst := cpre @ take r E1 @ E2), self = cd2\<rparr>)"
    using data lcpre lE1 lE2 h4dst h4tmp
    by (simp add: copy_ok h5a_def)
  have st5b: "copy (nslice ?dst (k * b) (k * b + b)) (nslice tmp b (2 * b)) \<lparr>heap = h4, self = cd2\<rparr>
             = (None, \<lparr>heap = h5b, self = cd2\<rparr>)"
    using data lcpre lE1 lE2 h4dst h4tmp
    by (simp add: copy_ok h5b_def)
  have st6b: "copy (nslice ?dst (k * b + b) ?n) (nslice tmp 0 r) \<lparr>heap = h5b, self = cd2\<rparr>
             = (None, \<lparr>heap = h4(?dst := cpre @ E2 @ take r E1), self = cd2\<rparr>)"
    using data lcpre lE1 lE2 h4dst h4tmp
    by (simp add: copy_ok h5b_def)
  have steps: "encode ?dst ?src \<lparr>heap = h0, self = cd\<rparr> =
     seq [codec_CryptBlocks (nslice ?dst 0 (k * b)) (nslice ?src 0 (k * b)),
          make_bytes tmp (int (2 * b)),
          copy (nslice tmp 0 (b + r)) (nslice ?src (k * b) (k * b + b + r)),
          codec_CryptBlocks (nslice tmp 0 (2 * b)) (nslice tmp 0 (2 * b)),
          (if mode cd = CS1 then
             seq [copy (nslice ?dst (k * b) (k * b + r)) (nslice tmp 0 r),
                  copy (nslice ?dst (k * b + r) ?n) (nslice tmp b (2 * b))]
           else if mode cd = CS2 \<or> mode cd = CS3 then
             seq [copy (nslice ?dst (k * b) (k * b + b)) (nslice tmp b (2 * b)),
                  copy (nslice ?dst (k * b + b) ?n) (nslice tmp 0 r)]
           else ret)] \<lparr>heap = h0, self = cd\<rparr>"
    by (rule encode_unaligned_steps) (use bs data in \<open>simp_all add: h0_def\<close>)
  have res: "encode ?dst ?src \<lparr>heap = h0, self = cd\<rparr> =
        (None, \<lparr>heap = h4(?dst := cpre @ (if mode cd = CS1 then take r E1 @ E2 else E2 @ take r E1)),
                self = cd2\<rparr>)"
  proof (cases "mode cd = CS1")
    case True
    show ?thesis
      unfolding steps
      by (simp only: True simp_thms if_True seq.simps st1 st2 st3 st4 st5a st6a prod.case option.case)
  next
    case False
    with m have m23: "mode cd = CS2 \<or> mode cd = CS3" by simp
    show ?thesis
      unfolding steps
      by (simp only: False m23 simp_thms if_True if_False seq.simps st1 st2 st3 st4 st5b st6b prod.case option.case)
  qed
  have hh: "(\<lambda>r. [])(?src := pre @ pm @ pt, ?dst := replicate (length (pre @ pm @ pt)) 0) = h0"
  proof -
    have "length (pre @ pm @ pt) = ?n" using data by simp
    then show ?thesis by (simp only: h0_def)
  qed
  have "(h4(?dst := cpre @ (if mode cd = CS1 then take r E1 @ E2 else E2 @ take r E1))) tmp = E1 @ E2"
    using h4tmp by simp
  then show ?thesis
    unfolding start_world_def hh res cd2_def[symmetric] cpre_def[symmetric]
    by (intro exI[of _ "h4(?dst := cpre @ (if mode cd = CS1 then take r E1 @ E2 else E2 @ take r E1))"])
       (simp only: fun_upd_same simp_thms)
qed

lemma process_encode_unaligned:
  assumes cd: "codec cd = CBCEncrypter blk iv" "encoder cd" "block_ok blk" "length iv = b" "BlockSize blk = b"
    and m: "mode cd = CS1 \<or> mode cd = CS2 \<or> mode cd = CS3"
    and data: "length pre = k * b" "length pm = b" "length pt = r" "0 < r" "r < b"
    and iv1: "iv1 = snd (cbc_encrypt blk k iv pre)"
    and E1: "E1 = Encrypt blk (xorBytes pm iv1)"
    and E2: "E2 = Encrypt blk (xorBytes (pt @ replicate (b - r) 0) E1)"
  shows "process cd (pre @ pm @ pt) =
     (None,
      fst (cbc_encrypt blk k iv pre) @ (if mode cd = CS1 then take r E1 @ E2 else E2 @ take r E1),
      cd\<lparr>codec := CBCEncrypter blk E2\<rparr>)"
proof -
  from encode_unaligned_run[OF cd(1,3,4,5) m data iv1 E1 E2] obtain h' where
    run: "encode (Caller 1) (Caller 0) (start_world cd (pre @ pm @ pt)) =
            (None, \<lparr>heap = h', self = cd\<lparr>codec := CBCEncrypter blk E2\<rparr>\<rparr>)"
    and out: "h' (Caller 1) =
            fst (cbc_encrypt blk k iv pre) @ (if mode cd = CS1 then take r E1 @ E2 else E2 @ take r E1)"
    by blast
  have enc: "encoder (self (start_world cd (pre @ pm @ pt)))"
    using cd(2) by (simp add: start_world_def)
  show ?thesis
    unfolding process_def CryptBlocks_def Let_def
    by (simp only: enc if_True run fst_conv snd_conv world.simps out)
qed



lemma swap_last_two_blocks_append:
  "length y = b \<Longrightarrow> length z = b \<Longrightarrow> swap_last_two_blocks b (a @ y @ z) = a @ z @ y"
  by (simp add: swap_last_two_blocks_def)

lemma split_three:
  assumes "length c = j * b + b + b"
  obtains ca cy cz where "c = ca @ cy @ cz" "length ca = j * b" "length cy = b" "length cz = b"
proof
  have 1: "take b (drop (j * b) c) @ drop (j * b + b) c = drop (j * b) c"
    using append_take_drop_id[of b "drop (j * b) c"] by (simp add: add.commute)
  show "c = take (j * b) c @ take b (drop (j * b) c) @ drop (j * b + b) c"
    unfolding 1 by simp
  show "length (take (j * b) c) = j * b" "length (take b (drop (j * b) c)) = b"
       "length (drop (j * b + b) c) = b"
    using assms by simp_all
qed

lemma int_mod_aligned: "int (k * b) mod int b = 0"
  by simp

lemma encode_aligned_steps_CS12:
  assumes "codec_BlockSize (codec cd) = b" "0 < b" "mode cd = CS1 \<or> mode cd = CS2"
    and "length (h src) = k * b" "length (h dst) = k * b"
  shows "encode dst src \<lparr>heap = h, self = cd\<rparr> =
     seq [codec_CryptBlocks (nslice dst 0 (k * b)) (nslice src 0 (k * b)), ret] \<lparr>heap = h, self = cd\<rparr>"
proof -
  have nz: "int b \<noteq> 0" using assms by simp
  have s1: "Slice dst 0 (int (k * b)) = nslice dst 0 (k * b)"
    and s2: "Slice src 0 (int (k * b)) = nslice src 0 (k * b)"
    by (simp_all add: nslice_def)
  show ?thesis
    unfolding encode_def Let_def
    by (simp only: world.simps assms int_mod_aligned nz if_False if_True simp_thms s1 s2)
qed

lemma encode_aligned_steps_CS3:
  assumes "codec_BlockSize (codec cd) = b" "0 < b" "mode cd = CS3"
    and "length (h src) = j * b + b + b" "length (h dst) = j * b + b + b"
  shows "encode dst src \<lparr>heap = h, self = cd\<rparr> =
     seq [codec_CryptBlocks (nslice dst 0 (j * b + b + b)) (nslice src 0 (j * b + b + b)),
          seq [make_bytes tmp (int b),
               copy (nslice tmp 0 b) (nslice dst (j * b) (j * b + b)),
               copy (nslice dst (j * b) (j * b + b)) (nslice dst (j * b + b) (j * b + b + b)),
               copy (nslice dst (j * b + b) (j * b + b + b)) (nslice tmp 0 b)]] \<lparr>heap = h, self = cd\<rparr>"
proof -
  have nz: "int b \<noteq> 0" using assms by simp
  have "j * b + b + b = (j + 2) * b" by simp
  then have md: "int (j * b + b + b) mod int b = 0" by (simp only: int_mod_aligned)
  have ne: "CS3 \<noteq> CS1" "CS3 \<noteq> CS2" by (simp_all add: CS1_def CS2_def CS3_def)
  have s1: "Slice dst 0 (int (j * b + b + b)) = nslice dst 0 (j * b + b + b)"
    and s2: "Slice src 0 (int (j * b + b + b)) = nslice src 0 (j * b + b + b)"
    and s3: "Slice tmp 0 (int b) = nslice tmp 0 b"
    and s4: "Slice dst (int (j * b + b + b) - 2 * int b) (int (j * b + b + b) - int b) = nslice dst (j * b) (j * b + b)"
    and s5: "Slice dst (int (j * b + b + b) - int b) (int (j * b + b + b)) = nslice dst (j * b + b) (j * b + b + b)"
    by (simp_all add: nslice_def)
  show ?thesis
    unfolding encode_def Let_def
    by (simp only: world.simps assms md nz ne if_False if_True simp_thms s1 s2 s3 s4 s5)
qed

lemma process_encode_aligned_CS12:
  assumes cd: "codec cd = CBCEncrypter blk iv" "encoder cd" "block_ok blk" "length iv = b" "BlockSize blk = b"
    and m: "mode cd = CS1 \<or> mode cd = CS2"
    and data: "length data = k * b"
  shows "process cd data =
     (None, fst (cbc_encrypt blk k iv data), cd\<lparr>codec := CBCEncrypter blk (snd (cbc_encrypt blk k iv data))\<rparr>)"
proof -
  let ?dst = "Caller 1" and ?src = "Caller 0"
  define h0 where "h0 = (\<lambda>r. [])(?src := data, ?dst := replicate (length data) 0)"
  define c where "c = fst (cbc_encrypt blk k iv data)"
  define cd1 where "cd1 = cd\<lparr>codec := CBCEncrypter blk (snd (cbc_encrypt blk k iv data))\<rparr>"
  have b0: "0 < b" using cd by (auto simp: block_ok_def)
  have bs: "codec_BlockSize (codec cd) = b" using cd by simp
  have st1: "codec_CryptBlocks (nslice ?dst 0 (k * b)) (nslice ?src 0 (k * b)) \<lparr>heap = h0, self = cd\<rparr>
             = (None, \<lparr>heap = h0(?dst := c), self = cd1\<rparr>)"
    using codec_CryptBlocks_enc_ok[where cd=cd and blk=blk and iv=iv and k=k and hi="k * b"
                                      and h=h0 and d="?dst" and s="?src"] cd data
    by (simp add: h0_def cd1_def c_def)
  have steps: "encode ?dst ?src \<lparr>heap = h0, self = cd\<rparr> =
     seq [codec_CryptBlocks (nslice ?dst 0 (k * b)) (nslice ?src 0 (k * b)), ret] \<lparr>heap = h0, self = cd\<rparr>"
    by (rule encode_aligned_steps_CS12) (use bs b0 m data in \<open>simp_all add: h0_def\<close>)
  have res: "encode ?dst ?src \<lparr>heap = h0, self = cd\<rparr> = (None, \<lparr>heap = h0(?dst := c), self = cd1\<rparr>)"
    unfolding steps by (simp only: seq.simps st1 ret_def prod.case option.case)
  show ?thesis
    unfolding process_def start_world_def CryptBlocks_def Let_def h0_def[symmetric]
    by (simp only: world.simps cd(2) if_True res fst_conv snd_conv fun_upd_same c_def cd1_def)
qed



lemma process_encode_aligned_CS3:
  assumes cd: "codec cd = CBCEncrypter blk iv" "encoder cd" "block_ok blk" "length iv = b" "BlockSize blk = b"
    and m: "mode cd = CS3"
    and data: "length data = k * b" "2 \<le> k"
  shows "process cd data =
     (None, swap_last_two_blocks b (fst (cbc_encrypt blk k iv data)),
      cd\<lparr>codec := CBCEncrypter blk (snd (cbc_encrypt blk k iv data))\<rparr>)"
proof -
  let ?dst = "Caller 1" and ?src = "Caller 0"
  define j where "j = k - 2"
  let ?n = "j * b + b + b"
  have n: "k * b = ?n" using data(2) by (simp add: j_def algebra_simps)
  define h0 where "h0 = (\<lambda>r. [])(?src := data, ?dst := replicate (length data) 0)"
  define c where "c = fst (cbc_encrypt blk k iv data)"
  define cd1 where "cd1 = cd\<lparr>codec := CBCEncrypter blk (snd (cbc_encrypt blk k iv data))\<rparr>"
  have b0: "0 < b" using cd by (auto simp: block_ok_def)
  have bs: "codec_BlockSize (codec cd) = b" using cd by simp
  have lc: "length c = ?n" using cd data(1) unfolding n[symmetric] by (simp add: c_def)
  from split_three[OF lc] obtain ca cy cz where
    cs: "c = ca @ cy @ cz" "length ca = j * b" "length cy = b" "length cz = b" by blast
  define h1 where "h1 = h0(?dst := ca @ cy @ cz)"
  define h2 where "h2 = h1(tmp := replicate b 0)"
  define h3 where "h3 = h2(tmp := cy)"
  define h4 where "h4 = h3(?dst := ca @ cz @ cz)"
  define h5 where "h5 = h4(?dst := ca @ cz @ cy)"
  have st1: "codec_CryptBlocks (nslice ?dst 0 ?n) (nslice ?src 0 ?n) \<lparr>heap = h0, self = cd\<rparr>
             = (None, \<lparr>heap = h1, self = cd1\<rparr>)"
    using codec_CryptBlocks_enc_ok[where cd=cd and blk=blk and iv=iv and k=k and hi="?n"
                                      and h=h0 and d="?dst" and s="?src"] cd data(1) n
    by (simp add: h0_def h1_def cd1_def c_def cs(1)[symmetric])
  have st2: "make_bytes tmp (int b) \<lparr>heap = h1, self = cd1\<rparr> = (None, \<lparr>heap = h2, self = cd1\<rparr>)"
    unfolding h2_def by (rule make_ok)
  have st3: "copy (nslice tmp 0 b) (nslice ?dst (j * b) (j * b + b)) \<lparr>heap = h2, self = cd1\<rparr>
             = (None, \<lparr>heap = h3, self = cd1\<rparr>)"
    using cs(2-) by (simp add: copy_ok h1_def h2_def h3_def)
  have st4: "copy (nslice ?dst (j * b) (j * b + b)) (nslice ?dst (j * b + b) ?n) \<lparr>heap = h3, self = cd1\<rparr>
             = (None, \<lparr>heap = h4, self = cd1\<rparr>)"
    using cs(2-) by (simp add: copy_ok h1_def h2_def h3_def h4_def)
  have st5: "copy (nslice ?dst (j * b + b) ?n) (nslice tmp 0 b) \<lparr>heap = h4, self = cd1\<rparr>
             = (None, \<lparr>heap = h5, self = cd1\<rparr>)"
    using cs(2-) by (simp add: copy_ok h1_def h2_def h3_def h4_def h5_def)
  have steps: "encode ?dst ?src \<lparr>heap = h0, self = cd\<rparr> =
     seq [codec_CryptBlocks (nslice ?dst 0 ?n) (nslice ?src 0 ?n),
          seq [make_bytes tmp (int b),
               copy (nslice tmp 0 b) (nslice ?dst (j * b) (j * b + b)),
               copy (nslice ?dst (j * b) (j * b + b)) (nslice ?dst (j * b + b) ?n),
               copy (nslice ?dst (j * b + b) ?n) (nslice tmp 0 b)]] \<lparr>heap = h0, self = cd\<rparr>"
    by (rule encode_aligned_steps_CS3) (use bs b0 m data(1) n in \<open>simp_all add: h0_def\<close>)
  have res: "encode ?dst ?src \<lparr>heap = h0, self = cd\<rparr> = (None, \<lparr>heap = h5, self = cd1\<rparr>)"
    unfolding steps by (simp only: seq.simps st1 st2 st3 st4 st5 prod.case option.case)
  have out: "h5 ?dst = swap_last_two_blocks b c"
    using cs by (simp add: h5_def swap_last_two_blocks_append)
  show ?thesis
    unfolding process_def start_world_def CryptBlocks_def Let_def h0_def[symmetric]
    by (simp only: world.simps cd(2) if_True res fst_conv snd_conv out c_def cd1_def)
qed



lemma block_Decrypt_ok:
  assumes "block cd = blk" "BlockSize blk = b" "block_ok blk"
    and "length (h d) = b" "length (h s) = 2 * b"
  shows "block_Decrypt (nslice d 0 b) (nslice s b (2 * b)) \<lparr>heap = h, self = cd\<rparr> =
     (None, \<lparr>heap = h(d := Decrypt blk (drop b (h s))), self = cd\<rparr>)"
proof -
  have "length (Decrypt blk (drop b (h s))) = b"
    using assms by (simp add: block_ok_def)
  then show ?thesis
    using assms by (simp add: block_Decrypt_def nslice_simps)
qed

lemma overlay_step:
  assumes "r \<le> m" "m < b" "length t = 2 * b" "length d = b"
  shows "(take r t @ take (m - r) (drop r d) @ drop m t)[m := d ! m] =
         take r t @ take (Suc m - r) (drop r d) @ drop (Suc m) t"
proof -
  have l1: "length (take r t) = r" using assms by simp
  have l2: "length (take (m - r) (drop r d)) = m - r" using assms by simp
  have a: "(take r t @ take (m - r) (drop r d) @ drop m t)[m := d ! m] =
           take r t @ take (m - r) (drop r d) @ (drop m t)[0 := d ! m]"
    using assms l1 l2 by (simp add: list_update_append)
  have "m < length t" using assms by simp
  then have "drop m t = t ! m # drop (Suc m) t" by (simp add: Cons_nth_drop_Suc)
  then have b: "(drop m t)[0 := d ! m] = d ! m # drop (Suc m) t" by simp
  have "m - r < length (drop r d)" using assms by simp
  then have c: "take (Suc (m - r)) (drop r d) = take (m - r) (drop r d) @ [drop r d ! (m - r)]"
    by (rule take_Suc_conv_app_nth)
  have d: "drop r d ! (m - r) = d ! m" using assms by simp
  have e: "Suc m - r = Suc (m - r)" using assms by simp
  show ?thesis unfolding a b e c d by simp
qed

lemma overlay_loop_upto:
  assumes "length (h tmp) = 2 * b" "length (h D) = b" "r \<le> m" "m \<le> b"
  shows "seq (map (\<lambda>i. assign_index tmp (int i) D (int i)) [r..<m]) \<lparr>heap = h, self = cd\<rparr> =
     (None, \<lparr>heap = h(tmp := take r (h tmp) @ take (m - r) (drop r (h D)) @ drop m (h tmp)),
             self = cd\<rparr>)"
  using assms(3,4)
proof (induction m)
  case 0
  then show ?case by simp
next
  case (Suc m)
  show ?case
  proof (cases "r = Suc m")
    case True
    then show ?thesis by simp
  next
    case False
    with Suc.prems have rm: "r \<le> m" "m \<le> b" "m < b" by simp_all
    let ?h = "h(tmp := take r (h tmp) @ take (m - r) (drop r (h D)) @ drop m (h tmp))"
    have up: "[r..<Suc m] = [r..<m] @ [m]" using rm by simp
    have lt: "length (?h tmp) = 2 * b" using assms rm by simp
    have st: "assign_index tmp (int m) D (int m) \<lparr>heap = ?h, self = cd\<rparr> =
       (None, \<lparr>heap = h(tmp := take r (h tmp) @ take (Suc m - r) (drop r (h D)) @ drop (Suc m) (h tmp)),
               self = cd\<rparr>)"
      using assms rm lt overlay_step[OF rm(1) rm(3) assms(1) assms(2)]
      by (simp add: assign_index_def)
    show ?thesis
      unfolding up map_append seq_append Suc.IH[OF rm(1) rm(2)]
      by (simp only: prod.case option.case list.map seq.simps st)
  qed
qed

lemma overlay_loop:
  assumes "length (h tmp) = 2 * b" "length (h D) = b" "r \<le> b"
  shows "seq (map (\<lambda>i. assign_index tmp (int i) D (int i)) [r..<b]) \<lparr>heap = h, self = cd\<rparr> =
     (None, \<lparr>heap = h(tmp := take r (h tmp) @ drop r (h D) @ drop b (h tmp)), self = cd\<rparr>)"
  using overlay_loop_upto[OF assms(1,2,3) order_refl, of cd] assms by simp



lemma decode_scratch_nat:
  "decode_scratch dst src m (int b) (int r) (int n) (int py) (int pz) =
     [codec_CryptBlocks (nslice dst 0 py) (nslice src 0 py),
      make_bytes tmp (int (2 * b)),
      (if m = CS1 then
         seq [copy (nslice tmp 0 r) (nslice src py (py + r)),
              copy (nslice tmp b (2 * b)) (nslice src (py + r) n)]
       else if m = CS2 \<or> m = CS3 then
         seq [copy (nslice tmp 0 r) (nslice src pz n),
              copy (nslice tmp b (2 * b)) (nslice src py pz)]
       else panic InvalidMode),
      make_bytes D (int b),
      block_Decrypt (nslice D 0 b) (nslice tmp b (2 * b)),
      seq (map (\<lambda>i. assign_index tmp (int i) D (int i)) [r..<b])]"
  by (simp add: decode_scratch_def nslice_def)

lemma decode_unaligned_steps:
  assumes "codec_BlockSize (codec cd) = b" "0 < r" "r < b"
    and "length (h src) = k * b + b + r" "length (h dst) = n"
  shows "decode dst src \<lparr>heap = h, self = cd\<rparr> =
     seq (decode_scratch dst src (mode cd) (int b) (int r) (int (k * b + b + r)) (int (k * b)) (int (k * b + b)) @
          [codec_CryptBlocks (nslice tmp 0 (2 * b)) (nslice tmp 0 (2 * b)),
           copy (nslice dst (k * b) n) (nslice tmp 0 (2 * b))]) \<lparr>heap = h, self = cd\<rparr>"
proof -
  have b0: "0 < b" using assms by simp
  note lo = int_mod_leftover[OF b0 assms(3), of k]
  have nz: "int b \<noteq> 0" "int r \<noteq> 0" using assms b0 by simp_all
  have pyv: "int (k * b + b + r) + (int b - int r) - 2 * int b = int (k * b)"
    and pzv: "int (k * b + b + r) + (int b - int r) - int b = int (k * b + b)"
    by simp_all
  have py: "\<not> int (k * b) < 0" by (simp only: of_nat_less_0_iff not_False_eq_True)
  have s1: "Slice tmp 0 (2 * int b) = nslice tmp 0 (2 * b)"
    and s2: "Slice dst (int (k * b)) (int n) = nslice dst (k * b) n"
    by (simp_all add: nslice_def)
  show ?thesis
    unfolding decode_def Let_def
    by (simp only: world.simps assms lo nz pyv pzv py if_False s1 s2)
qed

lemma decode_aligned_steps_CS12:
  assumes "codec_BlockSize (codec cd) = b" "0 < b" "mode cd = CS1 \<or> mode cd = CS2"
    and "length (h src) = k * b" "length (h dst) = k * b"
  shows "decode dst src \<lparr>heap = h, self = cd\<rparr> =
     codec_CryptBlocks (nslice dst 0 (k * b)) (nslice src 0 (k * b)) \<lparr>heap = h, self = cd\<rparr>"
proof -
  have nz: "int b \<noteq> 0" using assms by simp
  have s1: "Slice dst 0 (int (k * b)) = nslice dst 0 (k * b)"
    and s2: "Slice src 0 (int (k * b)) = nslice src 0 (k * b)"
    by (simp_all add: nslice_def)
  show ?thesis
    unfolding decode_def Let_def
    by (simp only: world.simps assms int_mod_aligned nz if_False if_True simp_thms s1 s2)
qed

lemma decode_aligned_steps_CS3:
  assumes "codec_BlockSize (codec cd) = b" "0 < b" "mode cd = CS3"
    and "length (h src) = j * b + b + b" "length (h dst) = j * b + b + b"
  shows "decode dst src \<lparr>heap = h, self = cd\<rparr> =
     seq [copy (nslice dst 0 (j * b)) (nslice src 0 (j * b)),
          copy (nslice dst (j * b) (j * b + b)) (nslice src (j * b + b) (j * b + b + b)),
          copy (nslice dst (j * b + b) (j * b + b + b)) (nslice src (j * b) (j * b + b)),
          codec_CryptBlocks (nslice dst 0 (j * b + b + b)) (nslice dst 0 (j * b + b + b))]
       \<lparr>heap = h, self = cd\<rparr>"
proof -
  have nz: "int b \<noteq> 0" using assms by simp
  have "j * b + b + b = (j + 2) * b" by simp
  then have md: "int (j * b + b + b) mod int b = 0" by (simp only: int_mod_aligned)
  have ne: "CS3 \<noteq> CS1" "CS3 \<noteq> CS2" by (simp_all add: CS1_def CS2_def CS3_def)
  have s1: "Slice dst 0 (int (j * b + b + b) - 2 * int b) = nslice dst 0 (j * b)"
    and s2: "Slice src 0 (int (j * b + b + b) - 2 * int b) = nslice src 0 (j * b)"
    and s3: "Slice dst (int (j * b + b + b) - 2 * int b) (int (j * b + b + b) - int b) = nslice dst (j * b) (j * b + b)"
    and s4: "Slice src (int (j * b + b + b) - int b) (int (j * b + b + b)) = nslice src (j * b + b) (j * b + b + b)"
    and s5: "Slice dst (int (j * b + b + b) - int b) (int (j * b + b + b)) = nslice dst (j * b + b) (j * b + b + b)"
    and s6: "Slice src (int (j * b + b + b) - 2 * int b) (int (j * b + b + b) - int b) = nslice src (j * b) (j * b + b)"
    and s7: "Slice dst 0 (int (j * b + b + b)) = nslice dst 0 (j * b + b + b)"
    by (simp_all add: nslice_def)
  show ?thesis
    unfolding decode_def Let_def
    by (simp only: world.simps assms md nz ne if_False if_True simp_thms s1 s2 s3 s4 s5 s6 s7)
qed

lemma process_decode_aligned_CS12:
  assumes cd: "codec cd = CBCDecrypter blk iv" "\<not> encoder cd" "block_ok blk" "length iv = b" "BlockSize blk = b"
    and m: "mode cd = CS1 \<or> mode cd = CS2"
    and data: "length data = k * b"
  shows "process cd data =
     (None, fst (cbc_decrypt blk k iv data), cd\<lparr>codec := CBCDecrypter blk (snd (cbc_decrypt blk k iv data))\<rparr>)"
proof -
  let ?dst = "Caller 1" and ?src = "Caller 0"
  define h0 where "h0 = (\<lambda>r. [])(?src := data, ?dst := replicate (length data) 0)"
  define c where "c = fst (cbc_decrypt blk k iv data)"
  define cd1 where "cd1 = cd\<lparr>codec := CBCDecrypter blk (snd (cbc_decrypt blk k iv data))\<rparr>"
  have b0: "0 < b" using cd by (auto simp: block_ok_def)
  have bs: "codec_BlockSize (codec cd) = b" using cd by simp
  have st1: "codec_CryptBlocks (nslice ?dst 0 (k * b)) (nslice ?src 0 (k * b)) \<lparr>heap = h0, self = cd\<rparr>
             = (None, \<lparr>heap = h0(?dst := c), self = cd1\<rparr>)"
    using codec_CryptBlocks_dec_ok[where cd=cd and blk=blk and iv=iv and k=k and hi="k * b"
                                      and h=h0 and d="?dst" and s="?src"] cd data
    by (simp add: h0_def cd1_def c_def)
  have steps: "decode ?dst ?src \<lparr>heap = h0, self = cd\<rparr> =
     codec_CryptBlocks (nslice ?dst 0 (k * b)) (nslice ?src 0 (k * b)) \<lparr>heap = h0, self = cd\<rparr>"
    by (rule decode_aligned_steps_CS12) (use bs b0 m data in \<open>simp_all add: h0_def\<close>)
  have res: "decode ?dst ?src \<lparr>heap = h0, self = cd\<rparr> = (None, \<lparr>heap = h0(?dst := c), self = cd1\<rparr>)"
    unfolding steps by (rule st1)
  show ?thesis
    unfolding process_def start_world_def CryptBlocks_def Let_def h0_def[symmetric]
    by (simp only: world.simps cd(2) if_False res fst_conv snd_conv fun_upd_same c_def cd1_def)
qed

lemma process_decode_aligned_CS3:
  assumes cd: "codec cd = CBCDecrypter blk iv" "\<not> encoder cd" "block_ok blk" "length iv = b" "BlockSize blk = b"
    and m: "mode cd = CS3"
    and data: "length data = k * b" "2 \<le> k"
  shows "process cd data =
     (None, fst (cbc_decrypt blk k iv (swap_last_two_blocks b data)),
      cd\<lparr>codec := CBCDecrypter blk (snd (cbc_decrypt blk k iv (swap_last_two_blocks b data)))\<rparr>)"
proof -
  let ?dst = "Caller 1" and ?src = "Caller 0"
  define j where "j = k - 2"
  let ?n = "j * b + b + b"
  have n: "k * b = ?n" using data(2) by (simp add: j_def algebra_simps)
  have ld: "length data = ?n" using data(1) n by simp
  from split_three[OF ld] obtain a y z where
    ds: "data = a @ y @ z" "length a = j * b" "length y = b" "length z = b" by blast
  have sw: "swap_last_two_blocks b data = a @ z @ y"
    using ds by (simp add: swap_last_two_blocks_append)
  define h0 where "h0 = (\<lambda>r. [])(?src := data, ?dst := replicate (length data) 0)"
  define c where "c = fst (cbc_decrypt blk k iv (a @ z @ y))"
  define cd1 where "cd1 = cd\<lparr>codec := CBCDecrypter blk (snd (cbc_decrypt blk k iv (a @ z @ y)))\<rparr>"
  have b0: "0 < b" using cd by (auto simp: block_ok_def)
  have bs: "codec_BlockSize (codec cd) = b" using cd by simp
  define h1 where "h1 = h0(?dst := a @ replicate (b + b) 0)"
  define h2 where "h2 = h1(?dst := a @ z @ replicate b 0)"
  define h3 where "h3 = h2(?dst := a @ z @ y)"
  have h0s: "h0 ?src = a @ y @ z" "h0 ?dst = replicate ?n 0"
    using ds(1) ld by (simp_all add: h0_def)
  have st1: "copy (nslice ?dst 0 (j * b)) (nslice ?src 0 (j * b)) \<lparr>heap = h0, self = cd\<rparr>
             = (None, \<lparr>heap = h1, self = cd\<rparr>)"
    using ds(2-) h0s by (simp add: copy_ok h1_def replicate_add[symmetric])
  have h1s: "h1 ?src = a @ y @ z" "h1 ?dst = a @ replicate (b + b) 0"
    using h0s by (simp_all add: h1_def)
  have st2: "copy (nslice ?dst (j * b) (j * b + b)) (nslice ?src (j * b + b) ?n) \<lparr>heap = h1, self = cd\<rparr>
             = (None, \<lparr>heap = h2, self = cd\<rparr>)"
    using ds(2-) h1s by (simp add: copy_ok h2_def)
  have h2s: "h2 ?src = a @ y @ z" "h2 ?dst = a @ z @ replicate b 0"
    using h1s by (simp_all add: h2_def)
  have st3: "copy (nslice ?dst (j * b + b) ?n) (nslice ?src (j * b) (j * b + b)) \<lparr>heap = h2, self = cd\<rparr>
             = (None, \<lparr>heap = h3, self = cd\<rparr>)"
    using ds(2-) h2s by (simp add: copy_ok h3_def)
  have h3s: "h3 ?dst = a @ z @ y" by (simp add: h3_def)
  have st4: "codec_CryptBlocks (nslice ?dst 0 ?n) (nslice ?dst 0 ?n) \<lparr>heap = h3, self = cd\<rparr>
             = (None, \<lparr>heap = h3(?dst := c), self = cd1\<rparr>)"
    using codec_CryptBlocks_dec_ok[where cd=cd and blk=blk and iv=iv and k=k and hi="?n"
                                      and h=h3 and d="?dst" and s="?dst"] cd n ds(2-) h3s
    by (simp add: cd1_def c_def)
  have steps: "decode ?dst ?src \<lparr>heap = h0, self = cd\<rparr> =
     seq [copy (nslice ?dst 0 (j * b)) (nslice ?src 0 (j * b)),
          copy (nslice ?dst (j * b) (j * b + b)) (nslice ?src (j * b + b) ?n),
          copy (nslice ?dst (j * b + b) ?n) (nslice ?src (j * b) (j * b + b)),
          codec_CryptBlocks (nslice ?dst 0 ?n) (nslice ?dst 0 ?n)] \<lparr>heap = h0, self = cd\<rparr>"
    by (rule decode_aligned_steps_CS3) (use bs b0 m h0s ds(2-) in \<open>simp_all\<close>)
  have res: "decode ?dst ?src \<lparr>heap = h0, self = cd\<rparr> = (None, \<lparr>heap = h3(?dst := c), self = cd1\<rparr>)"
    unfolding steps by (simp only: seq.simps st1 st2 st3 st4 prod.case option.case)
  show ?thesis
    unfolding process_def start_world_def CryptBlocks_def Let_def h0_def[symmetric] sw
    by (simp only: world.simps cd(2) if_False res fst_conv snd_conv fun_upd_same c_def cd1_def)
qed



lemma decode_scratch_run:
  assumes cd: "codec cd = CBCDecrypter blk iv" "block cd = blk" "block_ok blk" "length iv = b" "BlockSize blk = b"
    and m: "mode cd = CS1 \<or> mode cd = CS2 \<or> mode cd = CS3"
    and data: "length cpre = k * b" "length X = r" "length Y = b" "0 < r" "r < b"
  shows "\<exists>h'. seq (decode_scratch (Caller 1) (Caller 0) (mode cd) (int b) (int r) (int (k * b + b + r))
                     (int (k * b)) (int (k * b + b)))
                 (start_world cd (cpre @ (if mode cd = CS1 then X @ Y else Y @ X))) =
               (None, \<lparr>heap = h', self = cd\<lparr>codec := CBCDecrypter blk (snd (cbc_decrypt blk k iv cpre))\<rparr>\<rparr>) \<and>
              h' tmp = X @ drop r (Decrypt blk Y) @ Y \<and>
              h' (Caller 1) = fst (cbc_decrypt blk k iv cpre) @ replicate (b + r) 0"
proof -
  let ?dst = "Caller 1" and ?src = "Caller 0"
  let ?n = "k * b + b + r"
  define t where "t = (if mode cd = CS1 then X @ Y else Y @ X)"
  define h0 where "h0 = (\<lambda>r. [])(?src := cpre @ t, ?dst := replicate ?n 0)"
  have "length (cpre @ t) = ?n" using data by (simp add: t_def)
  then have sw: "start_world cd (cpre @ (if mode cd = CS1 then X @ Y else Y @ X)) = \<lparr>heap = h0, self = cd\<rparr>"
    unfolding t_def by (simp only: start_world_def h0_def t_def)
  define ppre where "ppre = fst (cbc_decrypt blk k iv cpre)"
  define cd1 where "cd1 = cd\<lparr>codec := CBCDecrypter blk (snd (cbc_decrypt blk k iv cpre))\<rparr>"
  define h1 where "h1 = h0(?dst := ppre @ replicate (b + r) 0)"
  define h2 where "h2 = h1(tmp := replicate (2 * b) 0)"
  define h3 where "h3 = h2(tmp := X @ replicate (2 * b - r) 0)"
  define h4 where "h4 = h3(tmp := X @ replicate (b - r) 0 @ Y)"
  define h5 where "h5 = h4(D := replicate b 0)"
  define h6 where "h6 = h5(D := Decrypt blk Y)"
  define h7 where "h7 = h6(tmp := X @ drop r (Decrypt blk Y) @ Y)"
  have lt: "length t = b + r" using data by (simp add: t_def)
  have h0s: "h0 ?src = cpre @ t" "h0 ?dst = replicate ?n 0"
    by (simp_all add: h0_def)
  have lD: "length (Decrypt blk Y) = b" using cd data by (simp add: block_ok_def)
  have st1: "codec_CryptBlocks (nslice ?dst 0 (k * b)) (nslice ?src 0 (k * b)) \<lparr>heap = h0, self = cd\<rparr>
             = (None, \<lparr>heap = h1, self = cd1\<rparr>)"
    using codec_CryptBlocks_dec_ok[where cd=cd and blk=blk and iv=iv and k=k and hi="k * b"
                                      and h=h0 and d="?dst" and s="?src"] cd data h0s
    by (simp add: h1_def cd1_def ppre_def replicate_add[symmetric])
  have st2: "make_bytes tmp (int (2 * b)) \<lparr>heap = h1, self = cd1\<rparr> = (None, \<lparr>heap = h2, self = cd1\<rparr>)"
    unfolding h2_def by (rule make_ok)
  have h2s: "h2 ?src = cpre @ t" "h2 tmp = replicate (2 * b) 0"
    using h0s by (simp_all add: h2_def h1_def)
  have st3a: "mode cd = CS1 \<Longrightarrow>
       copy (nslice tmp 0 r) (nslice ?src (k * b) (k * b + r)) \<lparr>heap = h2, self = cd1\<rparr>
             = (None, \<lparr>heap = h3, self = cd1\<rparr>)"
    using data h2s by (simp add: copy_ok h3_def t_def)
  have st3b: "mode cd \<noteq> CS1 \<Longrightarrow>
       copy (nslice tmp 0 r) (nslice ?src (k * b + b) ?n) \<lparr>heap = h2, self = cd1\<rparr>
             = (None, \<lparr>heap = h3, self = cd1\<rparr>)"
    using data h2s by (simp add: copy_ok h3_def t_def)
  have h3s: "h3 ?src = cpre @ t" "h3 tmp = X @ replicate (2 * b - r) 0"
    using h2s by (simp_all add: h3_def)
  have rr: "replicate (2 * b - r) (0::byte) = replicate (b - r) 0 @ replicate b 0"
    using data by (simp add: replicate_add[symmetric])
  have st4a: "mode cd = CS1 \<Longrightarrow>
       copy (nslice tmp b (2 * b)) (nslice ?src (k * b + r) ?n) \<lparr>heap = h3, self = cd1\<rparr>
             = (None, \<lparr>heap = h4, self = cd1\<rparr>)"
    using data h3s by (simp add: copy_ok h4_def t_def rr)
  have st4b: "mode cd \<noteq> CS1 \<Longrightarrow>
       copy (nslice tmp b (2 * b)) (nslice ?src (k * b) (k * b + b)) \<lparr>heap = h3, self = cd1\<rparr>
             = (None, \<lparr>heap = h4, self = cd1\<rparr>)"
    using data h3s by (simp add: copy_ok h4_def t_def rr)
  have st5: "make_bytes D (int b) \<lparr>heap = h4, self = cd1\<rparr> = (None, \<lparr>heap = h5, self = cd1\<rparr>)"
    unfolding h5_def by (rule make_ok)
  have h5s: "h5 tmp = X @ replicate (b - r) 0 @ Y" "h5 D = replicate b 0"
    by (simp_all add: h5_def h4_def)
  have st6: "block_Decrypt (nslice D 0 b) (nslice tmp b (2 * b)) \<lparr>heap = h5, self = cd1\<rparr>
             = (None, \<lparr>heap = h6, self = cd1\<rparr>)"
    using block_Decrypt_ok[where cd=cd1 and blk=blk and b=b and h=h5 and d=D and s=tmp] cd data h5s
    by (simp add: cd1_def h6_def)
  have h6s: "h6 tmp = X @ replicate (b - r) 0 @ Y" "h6 D = Decrypt blk Y"
    using h5s by (simp_all add: h6_def)
  have st7: "seq (map (\<lambda>i. assign_index tmp (int i) D (int i)) [r..<b]) \<lparr>heap = h6, self = cd1\<rparr>
             = (None, \<lparr>heap = h7, self = cd1\<rparr>)"
    using overlay_loop[where h=h6 and b=b and r=r and cd=cd1] data h6s lD
    by (simp add: h7_def)
  have ne: "CS2 \<noteq> CS1" "CS3 \<noteq> CS1" by (simp_all add: CS1_def CS2_def CS3_def)
  have run: "seq (decode_scratch ?dst ?src (mode cd) (int b) (int r) (int ?n) (int (k * b)) (int (k * b + b)))
               \<lparr>heap = h0, self = cd\<rparr> = (None, \<lparr>heap = h7, self = cd1\<rparr>)"
  proof (cases "mode cd = CS1")
    case True
    show ?thesis
      unfolding decode_scratch_nat
      by (simp only: True simp_thms if_True seq.simps st1 st2 st3a[OF True] st4a[OF True] st5 st6 st7
                     prod.case option.case)
  next
    case False
    with m have m23: "mode cd = CS2 \<or> mode cd = CS3" by simp
    show ?thesis
      unfolding decode_scratch_nat
      by (simp only: False m23 simp_thms if_True if_False seq.simps st1 st2 st3b[OF False] st4b[OF False]
                     st5 st6 st7 prod.case option.case)
  qed
  have "h7 tmp = X @ drop r (Decrypt blk Y) @ Y" by (simp add: h7_def)
  moreover have "h7 ?dst = ppre @ replicate (b + r) 0"
    by (simp add: h7_def h6_def h5_def h4_def h3_def h2_def h1_def)
  ultimately show ?thesis
    using run unfolding sw cd1_def ppre_def by blast
qed

lemma process_decode_unaligned:
  assumes cd: "codec cd = CBCDecrypter blk iv" "\<not> encoder cd" "block cd = blk" "block_ok blk"
              "length iv = b" "BlockSize blk = b"
    and m: "mode cd = CS1 \<or> mode cd = CS2 \<or> mode cd = CS3"
    and data: "length cpre = k * b" "length X = r" "length Y = b" "0 < r" "r < b"
    and iv1: "iv1 = snd (cbc_decrypt blk k iv cpre)"
  shows "process cd (cpre @ (if mode cd = CS1 then X @ Y else Y @ X)) =
     (None,
      fst (cbc_decrypt blk k iv cpre) @
        take (b + r) (fst (cbc_decrypt blk 2 iv1 (X @ drop r (Decrypt blk Y) @ Y))),
      cd\<lparr>codec := CBCDecrypter blk Y\<rparr>)"
proof -
  let ?dst = "Caller 1" and ?src = "Caller 0"
  let ?n = "k * b + b + r"
  let ?data = "cpre @ (if mode cd = CS1 then X @ Y else Y @ X)"
  define h0 where "h0 = (\<lambda>r. [])(?src := ?data, ?dst := replicate ?n 0)"
  define ppre where "ppre = fst (cbc_decrypt blk k iv cpre)"
  define cd1 where "cd1 = cd\<lparr>codec := CBCDecrypter blk iv1\<rparr>"
  define cd2 where "cd2 = cd\<lparr>codec := CBCDecrypter blk Y\<rparr>"
  define T where "T = X @ drop r (Decrypt blk Y) @ Y"
  define P where "P = fst (cbc_decrypt blk 2 iv1 T)"
  have b0: "0 < b" using data by simp
  have bs: "codec_BlockSize (codec cd) = b" using cd by simp
  have ld: "length ?data = ?n" using data by simp
  have lD: "length (Decrypt blk Y) = b" using cd data by (simp add: block_ok_def)
  have lT: "length T = 2 * b" using data lD by (simp add: T_def)
  have liv1: "length iv1 = b" using cd data by (simp add: iv1)
  have lppre: "length ppre = k * b" using cd data by (simp add: ppre_def)
  have lP: "length P = 2 * b" using cd liv1 lT by (simp add: P_def)
  have sndT: "snd (cbc_decrypt blk 2 iv1 T) = Y"
    using cbc_decrypt_two[where blk=blk and iv=iv1 and x="X @ drop r (Decrypt blk Y)" and y=Y] cd data lD
    by (simp add: T_def)
  have sw: "start_world cd ?data = \<lparr>heap = h0, self = cd\<rparr>"
    by (simp only: start_world_def ld h0_def)
  from decode_scratch_run[OF cd(1,3,4,5,6) m data] obtain h' where
    run: "seq (decode_scratch ?dst ?src (mode cd) (int b) (int r) (int ?n) (int (k * b)) (int (k * b + b)))
            \<lparr>heap = h0, self = cd\<rparr> = (None, \<lparr>heap = h', self = cd1\<rparr>)"
    and h's: "h' tmp = T" "h' ?dst = ppre @ replicate (b + r) 0"
    unfolding sw cd1_def iv1 T_def ppre_def by blast
  define h8 where "h8 = h'(tmp := P)"
  have st8: "codec_CryptBlocks (nslice tmp 0 (2 * b)) (nslice tmp 0 (2 * b)) \<lparr>heap = h', self = cd1\<rparr>
             = (None, \<lparr>heap = h8, self = cd2\<rparr>)"
    using codec_CryptBlocks_dec_ok[where cd=cd1 and blk=blk and iv=iv1 and k=2 and hi="2 * b"
                                      and h=h' and d=tmp and s=tmp] cd liv1 lT h's sndT
    by (simp add: cd1_def cd2_def h8_def P_def)
  have st9: "copy (nslice ?dst (k * b) ?n) (nslice tmp 0 (2 * b)) \<lparr>heap = h8, self = cd2\<rparr>
             = (None, \<lparr>heap = h8(?dst := ppre @ take (b + r) P), self = cd2\<rparr>)"
    using data lppre lP h's by (simp add: copy_ok h8_def)
  have steps: "decode ?dst ?src \<lparr>heap = h0, self = cd\<rparr> =
     seq (decode_scratch ?dst ?src (mode cd) (int b) (int r) (int ?n) (int (k * b)) (int (k * b + b)) @
          [codec_CryptBlocks (nslice tmp 0 (2 * b)) (nslice tmp 0 (2 * b)),
           copy (nslice ?dst (k * b) ?n) (nslice tmp 0 (2 * b))]) \<lparr>heap = h0, self = cd\<rparr>"
    by (rule decode_unaligned_steps) (use bs data in \<open>simp_all add: h0_def\<close>)
  have res: "decode ?dst ?src \<lparr>heap = h0, self = cd\<rparr> =
             (None, \<lparr>heap = h8(?dst := ppre @ take (b + r) P), self = cd2\<rparr>)"
    unfolding steps seq_append run
    by (simp only: seq.simps st8 st9 prod.case option.case)
  have hh: "(\<lambda>r. [])(?src := ?data, ?dst := replicate (length ?data) 0) = h0"
    by (simp only: ld h0_def)
  show ?thesis
    unfolding process_def start_world_def CryptBlocks_def Let_def hh
    by (simp only: world.simps cd(2) if_False res fst_conv snd_conv fun_upd_same ppre_def cd2_def P_def T_def)
qed



section \<open>Lengths, constructors and the size check\<close>


lemma split_lengths3:
  assumes "length c = x + y + z"
  obtains ca cy cz where "c = ca @ cy @ cz" "length ca = x" "length cy = y" "length cz = z"
proof
  have 1: "take y (drop x c) @ drop (x + y) c = drop x c"
    using append_take_drop_id[of y "drop x c"] by (simp add: add.commute)
  show "c = take x c @ take y (drop x c) @ drop (x + y) c"
    unfolding 1 by simp
  show "length (take x c) = x" "length (take y (drop x c)) = y" "length (drop (x + y) c) = z"
    using assms by simp_all
qed

lemma unaligned_split:
  assumes "0 < (b::nat)" "n mod b \<noteq> 0" "b + 1 \<le> n"
  obtains k r where "n = k * b + b + r" "0 < r" "r < b"
proof
  have "b \<le> n" using assms(3) by simp
  with assms(1) have "0 < n div b" by (simp add: div_greater_zero_iff)
  then have d: "1 \<le> n div b" by simp
  have "n = (n div b) * b + n mod b" by simp
  also have "(n div b) * b = (n div b - 1) * b + b"
    using d by (simp add: diff_mult_distrib)
  finally show "n = (n div b - 1) * b + b + n mod b" .
  show "0 < n mod b" using assms by simp
  show "n mod b < b" using assms by simp
qed

lemma NewCBCCTSEncrypter_Inr:
  "NewCBCCTSEncrypter blk iv m = Inr cd \<Longrightarrow>
     cd = \<lparr>encoder = True, block = blk, codec = CBCEncrypter blk iv, mode = m\<rparr> \<and>
     length iv = BlockSize blk \<and> (m = CS1 \<or> m = CS2 \<or> m = CS3)"
  by (auto simp: NewCBCCTSEncrypter_def NewCBCEncrypter_def CS1_def CS2_def CS3_def split: if_splits)

lemma NewCBCCTSDecrypter_Inr:
  "NewCBCCTSDecrypter blk iv m = Inr cd \<Longrightarrow>
     cd = \<lparr>encoder = False, block = blk, codec = CBCDecrypter blk iv, mode = m\<rparr> \<and>
     length iv = BlockSize blk \<and> (m = CS1 \<or> m = CS2 \<or> m = CS3)"
  by (auto simp: NewCBCCTSDecrypter_def NewCBCDecrypter_def CS1_def CS2_def CS3_def split: if_splits)

lemma too_small_panics:
  assumes "0 < codec_BlockSize (codec cd)"
    and "length data mod codec_BlockSize (codec cd) \<noteq> 0"
    and "length data < codec_BlockSize (codec cd)"
  shows "process cd data = (Some DataSizeTooSmall, replicate (length data) 0, cd)"
proof -
  let ?b = "codec_BlockSize (codec cd)" and ?n = "length data"
  have lo: "int ?n mod int ?b = int ?n" using assms by simp
  have nz: "int ?n \<noteq> 0" "int ?b \<noteq> 0" using assms by auto
  have py: "int ?n + (int ?b - int ?n) - 2 * int ?b < 0" using assms by simp
  show ?thesis
    using lo nz py
    by (simp add: process_def start_world_def CryptBlocks_def encode_def decode_def Let_def panic_def)
qed



lemma process_unaligned_ok:
  assumes ok: "block_ok blk"
    and cd: "NewCBCCTSEncrypter blk iv m = Inr cd \<or> NewCBCCTSDecrypter blk iv m = Inr cd"
    and n: "length data mod BlockSize blk \<noteq> 0" "BlockSize blk + 1 \<le> length data"
  shows "fst (process cd data) = None \<and> length (fst (snd (process cd data))) = length data"
proof -
  let ?b = "BlockSize blk"
  have b0: "0 < ?b" using ok by (simp add: block_ok_def)
  from unaligned_split[OF b0 n] obtain k r where
    kr: "length data = k * ?b + ?b + r" "0 < r" "r < ?b" by blast
  from cd show ?thesis
  proof
    assume "NewCBCCTSEncrypter blk iv m = Inr cd"
    from NewCBCCTSEncrypter_Inr[OF this] have
      c: "codec cd = CBCEncrypter blk iv" "encoder cd" "mode cd = CS1 \<or> mode cd = CS2 \<or> mode cd = CS3"
      and liv: "length iv = ?b" by auto
    from split_lengths3[OF kr(1)] obtain pre pm pt where
      d: "data = pre @ pm @ pt" "length pre = k * ?b" "length pm = ?b" "length pt = r" by blast
    have l1: "length (Encrypt blk x) = ?b" if "length x = ?b" for x
      using ok that by (simp add: block_ok_def)
    define iv1 where "iv1 = snd (cbc_encrypt blk k iv pre)"
    define E1 where "E1 = Encrypt blk (xorBytes pm iv1)"
    define E2 where "E2 = Encrypt blk (xorBytes (pt @ replicate (?b - r) 0) E1)"
    note res = process_encode_unaligned[OF c(1,2) ok liv refl c(3) d(2,3,4) kr(2,3) iv1_def E1_def E2_def]
    have liv1: "length iv1 = ?b" using ok liv d(2) by (simp add: iv1_def)
    have lE1: "length E1 = ?b" using l1 liv1 d(3) by (simp add: E1_def)
    have lE2: "length E2 = ?b" using l1 lE1 d(4) kr(3) by (simp add: E2_def)
    have lc: "length (fst (cbc_encrypt blk k iv pre)) = k * ?b" using ok liv d(2) by simp
    have "length (fst (snd (process cd (pre @ pm @ pt)))) = k * ?b + ?b + r"
      unfolding res using lE1 lE2 lc kr(3) by simp
    moreover have "fst (process cd (pre @ pm @ pt)) = None"
      unfolding res by simp
    ultimately show ?thesis
      unfolding d(1)[symmetric] kr(1) by simp
  next
    assume "NewCBCCTSDecrypter blk iv m = Inr cd"
    from NewCBCCTSDecrypter_Inr[OF this] have
      c: "codec cd = CBCDecrypter blk iv" "\<not> encoder cd" "block cd = blk"
         "mode cd = CS1 \<or> mode cd = CS2 \<or> mode cd = CS3"
      and liv: "length iv = ?b" by auto
    obtain cpre X Y where
      d: "data = cpre @ (if mode cd = CS1 then X @ Y else Y @ X)"
         "length cpre = k * ?b" "length X = r" "length Y = ?b"
    proof (cases "mode cd = CS1")
      case True
      have "length data = k * ?b + r + ?b" using kr(1) by simp
      from split_lengths3[OF this] True that show ?thesis by auto
    next
      case False
      from split_lengths3[OF kr(1)] False that show ?thesis by auto
    qed
    have l1: "length (Decrypt blk x) = ?b" if "length x = ?b" for x
      using ok that by (simp add: block_ok_def)
    have lT: "length (X @ drop r (Decrypt blk Y) @ Y) = 2 * ?b"
      using d kr l1 by simp
    have lP: "length (fst (cbc_decrypt blk 2 (snd (cbc_decrypt blk k iv cpre)) (X @ drop r (Decrypt blk Y) @ Y))) = 2 * ?b"
      using ok liv d(2) lT by simp
    have lc: "length (fst (cbc_decrypt blk k iv cpre)) = k * ?b" using ok liv d(2) by simp
    note res = process_decode_unaligned[OF c(1,2,3) ok liv refl c(4) d(2,3,4) kr(2,3) refl]
    have "length (fst (snd (process cd (cpre @ (if mode cd = CS1 then X @ Y else Y @ X))))) = k * ?b + ?b + r"
      unfolding res using lP lc kr(3) by simp
    moreover have "fst (process cd (cpre @ (if mode cd = CS1 then X @ Y else Y @ X))) = None"
      unfolding res by simp
    ultimately show ?thesis
      unfolding d(1)[symmetric] kr(1) by simp
  qed
qed



lemma toy_ok: "block_ok toy"
  by (simp add: block_ok_def toy_def rev_map o_def)

lemma codec_update_same: "codec cd = c \<Longrightarrow> cd\<lparr>codec := c\<rparr> = cd"
  by (cases cd) simp

section \<open>Claims\<close>

text \<open>
  C10. For an empty source buffer, encode and decode under CS1 and CS2 succeed, produce an
  empty output and leave the transform object, hence its chaining value, unchanged. Under CS3
  the empty source takes the aligned path, whose block exchange needs two blocks: the call
  panics on a slice expression out of range and nothing is produced.
\<close>

theorem zero_length_input:
  assumes "0 < codec_BlockSize (codec cd)"
  shows "(mode cd = CS1 \<or> mode cd = CS2 \<longrightarrow> process cd [] = (None, [], cd)) \<and>
         (mode cd = CS3 \<longrightarrow>
            fst (process cd []) = Some SliceBoundsOutOfRange \<and>
            fst (snd (process cd [])) = [] \<and>
            codec (snd (snd (process cd []))) = codec cd)"
proof (cases "codec cd")
  case (CBCEncrypter blk iv)
  have ne: "CS3 \<noteq> CS1" "CS3 \<noteq> CS2" by (simp_all add: CS1_def CS2_def CS3_def)
  show ?thesis
    using assms CBCEncrypter ne
    by (cases "encoder cd")
       (auto simp add: process_def start_world_def CryptBlocks_def encode_def decode_def Let_def
          codec_CryptBlocks_def copy_def make_bytes_def panic_def ret_def codec_update_same)
next
  case (CBCDecrypter blk iv)
  have ne: "CS3 \<noteq> CS1" "CS3 \<noteq> CS2" by (simp_all add: CS1_def CS2_def CS3_def)
  show ?thesis
    using assms CBCDecrypter ne
    by (cases "encoder cd")
       (auto simp add: process_def start_world_def CryptBlocks_def encode_def decode_def Let_def
          codec_CryptBlocks_def copy_def make_bytes_def panic_def ret_def codec_update_same)
qed

text \<open>
  C7. For a fresh encrypter or decrypter of any format, an input whose length is not a multiple
  of the block size and is smaller than the block size makes \<open>CryptBlocks\<close> panic with the
  data-size error while the destination still holds what it held and the transform object is
  unchanged; an unaligned input of at least \<open>b + 1\<close> bytes is processed without a panic. For
  unaligned lengths, \<open>n - b - r < 0\<close> is the same as \<open>n < b\<close>.
\<close>

theorem unaligned_minimum_size:
  assumes ok: "block_ok blk"
    and cd: "NewCBCCTSEncrypter blk iv m = Inr cd \<or> NewCBCCTSDecrypter blk iv m = Inr cd"
    and n: "length data mod BlockSize blk \<noteq> 0"
  shows "(length data < BlockSize blk \<longrightarrow>
            process cd data = (Some DataSizeTooSmall, replicate (length data) 0, cd)) \<and>
         (BlockSize blk + 1 \<le> length data \<longrightarrow> fst (process cd data) = None) \<and>
         ((int (length data) - int (BlockSize blk) - int (length data mod BlockSize blk) < 0)
            = (length data < BlockSize blk))"
proof -
  let ?b = "BlockSize blk" and ?n = "length data"
  have b0: "0 < ?b" using ok by (simp add: block_ok_def)
  have bs: "codec_BlockSize (codec cd) = ?b"
    using cd NewCBCCTSEncrypter_Inr[of blk iv m cd] NewCBCCTSDecrypter_Inr[of blk iv m cd] by auto
  have 1: "process cd data = (Some DataSizeTooSmall, replicate ?n 0, cd)" if "?n < ?b"
    using too_small_panics[of cd data] b0 n that unfolding bs by simp
  have 2: "fst (process cd data) = None" if "?b + 1 \<le> ?n"
    using process_unaligned_ok[OF ok cd n that] by simp
  have 3: "(int ?n - int ?b - int (?n mod ?b) < 0) = (?n < ?b)"
  proof (cases "?n < ?b")
    case True
    then show ?thesis by simp
  next
    case False
    then have "?b + 1 \<le> ?n" using n by (metis Suc_eq_plus1 Suc_leI le_neq_implies_less mod_self not_less)
    from unaligned_split[OF b0 n this] obtain k r where
      kr: "?n = k * ?b + ?b + r" "0 < r" "r < ?b" by blast
    have "?n mod ?b = r"
    proof -
      have "k * ?b + ?b + r = r + Suc k * ?b" by simp
      then have "?n mod ?b = r mod ?b" unfolding kr(1) by (simp only: mod_mult_self1)
      with kr(3) show ?thesis by simp
    qed
    then have "int ?n - int ?b - int (?n mod ?b) = int (k * ?b)"
      using kr(1) by simp
    then have "\<not> int ?n - int ?b - int (?n mod ?b) < 0"
      by (simp only: of_nat_less_0_iff not_False_eq_True)
    with False show ?thesis by simp
  qed
  from 1 2 3 show ?thesis by blast
qed

theorem unaligned_minimum_size_witness:
  "block_ok toy \<and>
   NewCBCCTSDecrypter toy [10, 20] CS1 =
     Inr \<lparr>encoder = False, block = toy, codec = CBCDecrypter toy [10, 20], mode = CS1\<rparr> \<and>
   length [1::byte] mod BlockSize toy \<noteq> 0 \<and> length [1::byte] < BlockSize toy \<and>
   length [1, 2, 3::byte] mod BlockSize toy \<noteq> 0 \<and> BlockSize toy + 1 \<le> length [1, 2, 3::byte] \<and>
   process \<lparr>encoder = False, block = toy, codec = CBCDecrypter toy [10, 20], mode = CS1\<rparr> [1] =
     (Some DataSizeTooSmall, [0],
      \<lparr>encoder = False, block = toy, codec = CBCDecrypter toy [10, 20], mode = CS1\<rparr>) \<and>
   fst (process \<lparr>encoder = False, block = toy, codec = CBCDecrypter toy [10, 20], mode = CS1\<rparr> [1, 2, 3]) = None"
proof -
  let ?cd = "\<lparr>encoder = False, block = toy, codec = CBCDecrypter toy [10, 20], mode = CS1\<rparr>"
  have h1: "block_ok toy" by (rule toy_ok)
  have h2: "NewCBCCTSDecrypter toy [10, 20] CS1 = Inr ?cd"
    by (simp add: NewCBCCTSDecrypter_def NewCBCDecrypter_def CS1_def CS3_def toy_def)
  have h3: "length [1::byte] mod BlockSize toy \<noteq> 0" "length [1::byte] < BlockSize toy"
    by (simp_all add: toy_def)
  have h4: "length [1, 2, 3::byte] mod BlockSize toy \<noteq> 0" "BlockSize toy + 1 \<le> length [1, 2, 3::byte]"
    by (simp_all add: toy_def)
  from unaligned_minimum_size[OF h1 disjI2[OF h2] h3(1)] h3(2)
  have a: "process ?cd [1] = (Some DataSizeTooSmall, [0], ?cd)" by simp
  from unaligned_minimum_size[OF h1 disjI2[OF h2] h4(1)] h4(2)
  have b: "fst (process ?cd [1, 2, 3]) = None" by simp
  from h1 h2 h3 h4 a b show ?thesis by blast
qed

theorem zero_length_input_witness:
  "0 < codec_BlockSize (codec \<lparr>encoder = True, block = toy, codec = CBCEncrypter toy [10, 20], mode = CS2\<rparr>) \<and>
   process \<lparr>encoder = True, block = toy, codec = CBCEncrypter toy [10, 20], mode = CS2\<rparr> [] =
     (None, [], \<lparr>encoder = True, block = toy, codec = CBCEncrypter toy [10, 20], mode = CS2\<rparr>) \<and>
   0 < codec_BlockSize (codec \<lparr>encoder = False, block = toy, codec = CBCDecrypter toy [10, 20], mode = CS3\<rparr>) \<and>
   fst (process \<lparr>encoder = False, block = toy, codec = CBCDecrypter toy [10, 20], mode = CS3\<rparr> []) =
     Some SliceBoundsOutOfRange"
proof -
  let ?e = "\<lparr>encoder = True, block = toy, codec = CBCEncrypter toy [10, 20], mode = CS2\<rparr>"
  let ?d = "\<lparr>encoder = False, block = toy, codec = CBCDecrypter toy [10, 20], mode = CS3\<rparr>"
  have h1: "0 < codec_BlockSize (codec ?e)" by (simp add: toy_def)
  have h2: "0 < codec_BlockSize (codec ?d)" by (simp add: toy_def)
  from zero_length_input[OF h1] have a: "process ?e [] = (None, [], ?e)" by simp
  from zero_length_input[OF h2] have b: "fst (process ?d []) = Some SliceBoundsOutOfRange" by simp
  from h1 h2 a b show ?thesis by blast
qed

text \<open>
  C3. The encrypter under CS3 on one block (two bytes of the toy cipher): the chained
  encryption has already filled the destination and advanced the chaining value when the
  block exchange evaluates \<open>dst[-2:0]\<close> and panics on the slice bounds. The panic is not the
  data-size error.
\<close>

theorem CS3_one_block_encode_panics_after_writing:
  "(case NewCBCCTSEncrypter toy [10, 20] CS3 of
      Inl e \<Rightarrow> False
    | Inr cd \<Rightarrow>
        (let r = process cd [1, 2]
         in fst r = Some SliceBoundsOutOfRange \<and> fst (snd r) = [29, 18] \<and>
            codec_iv (codec (snd (snd r))) = [29, 18]))"
  by code_simp

text \<open>
  C2. The decrypter under CS3 on two aligned blocks: with a separate destination the result
  is the plaintext \<open>[1, 2, 3, 4]\<close>; with the source as destination the second copy of the
  exchange overwrites the block that the third copy reads, and the result is different.
\<close>

theorem CS3_decode_in_place_differs:
  "(case NewCBCCTSDecrypter toy [10, 20] CS3 of
      Inl e \<Rightarrow> False
    | Inr cd \<Rightarrow>
        (let sep = process cd [29, 37, 29, 18]; inp = process_inplace cd [29, 37, 29, 18]
         in fst sep = None \<and> fst (snd sep) = [1, 2, 3, 4] \<and>
            fst inp = None \<and> fst (snd inp) = [1, 2, 22, 4]))"
  by code_simp



section \<open>Independence of the format\<close>


lemma mode_blind_panic: "mode_blind (panic e)"
  by (simp add: mode_blind_def panic_def)

lemma mode_blind_ret: "mode_blind ret"
  by (simp add: mode_blind_def ret_def)

lemma mode_blind_make_bytes: "mode_blind (make_bytes r n)"
  by (simp add: mode_blind_def make_bytes_def panic_def set_mode_def)

lemma mode_blind_copy: "mode_blind (copy d s)"
  by (simp add: mode_blind_def copy_def panic_def set_mode_def)

lemma mode_blind_assign_index: "mode_blind (assign_index a i b j)"
  by (simp add: mode_blind_def assign_index_def panic_def set_mode_def)

lemma mode_blind_block_Decrypt: "mode_blind (block_Decrypt d s)"
  by (simp add: mode_blind_def block_Decrypt_def panic_def set_mode_def)

lemma mode_blind_codec_CryptBlocks: "mode_blind (codec_CryptBlocks d s)"
  unfolding mode_blind_def
proof (intro allI)
  fix m w
  show "codec_CryptBlocks d s (set_mode m w) =
        (fst (codec_CryptBlocks d s w), set_mode m (snd (codec_CryptBlocks d s w)))"
    by (cases "codec (self w)")
       (simp_all add: codec_CryptBlocks_def panic_def set_mode_def Let_def)
qed

lemma mode_blind_seq: "(\<And>f. f \<in> set fs \<Longrightarrow> mode_blind f) \<Longrightarrow> mode_blind (seq fs)"
proof (induction fs)
  case Nil
  show ?case by (simp add: mode_blind_def)
next
  case (Cons f fs)
  have f: "mode_blind f" and r: "mode_blind (seq fs)" using Cons by simp_all
  show ?case
    unfolding mode_blind_def
  proof (intro allI)
    fix m w
    obtain e w' where fw: "f w = (e, w')" by (cases "f w")
    have fm: "f (set_mode m w) = (e, set_mode m w')"
      using f fw by (simp add: mode_blind_def)
    show "seq (f # fs) (set_mode m w) = (fst (seq (f # fs) w), set_mode m (snd (seq (f # fs) w)))"
    proof (cases e)
      case None
      with fw fm r show ?thesis by (simp add: mode_blind_def)
    next
      case (Some a)
      with fw fm show ?thesis by simp
    qed
  qed
qed

lemma mode_blind_seq_all: "list_all mode_blind fs \<Longrightarrow> mode_blind (seq fs)"
  by (rule mode_blind_seq) (simp add: list_all_iff)

lemma mode_blind_loop: "mode_blind (seq (map (\<lambda>i. assign_index a (f i) b (g i)) xs))"
  by (rule mode_blind_seq) (auto intro: mode_blind_assign_index)

lemma mode_blind_if: "mode_blind f \<Longrightarrow> mode_blind g \<Longrightarrow> mode_blind (if c then f else g)"
  by simp

lemmas mode_blind_intros =
  mode_blind_panic mode_blind_ret mode_blind_make_bytes mode_blind_copy mode_blind_assign_index
  mode_blind_block_Decrypt mode_blind_codec_CryptBlocks mode_blind_loop

lemma mode_blind_same:
  assumes "mode_blind F"
  shows "fst (F (set_mode m1 w)) = fst (F (set_mode m2 w)) \<and>
         heap (snd (F (set_mode m1 w))) = heap (snd (F (set_mode m2 w))) \<and>
         codec (self (snd (F (set_mode m1 w)))) = codec (self (snd (F (set_mode m2 w))))"
  using assms by (simp add: mode_blind_def set_mode_def)



lemma CS_distinct: "CS1 \<noteq> CS2" "CS2 \<noteq> CS1" "CS1 \<noteq> CS3" "CS3 \<noteq> CS1" "CS2 \<noteq> CS3" "CS3 \<noteq> CS2"
  by (simp_all add: CS1_def CS2_def CS3_def)

lemma set_mode_simps [simp]:
  "heap (set_mode m w) = heap w"
  "codec (self (set_mode m w)) = codec (self w)"
  "encoder (self (set_mode m w)) = encoder (self w)"
  "mode (self (set_mode m w)) = m"
  by (simp_all add: set_mode_def)

lemma CryptBlocks_aligned_CS2_CS1:
  assumes al: "length (heap w src) mod codec_BlockSize (codec (self w)) = 0"
  shows "\<exists>F. mode_blind F \<and> CryptBlocks dst src (set_mode CS2 w) = F (set_mode CS2 w) \<and>
              CryptBlocks dst src (set_mode CS1 w) = F (set_mode CS1 w)"
proof (cases "codec_BlockSize (codec (self w)) = 0")
  case True
  have "CryptBlocks dst src (set_mode m w) = panic IntegerDivideByZero (set_mode m w)" for m
    using True by (simp add: CryptBlocks_def encode_def decode_def Let_def)
  with mode_blind_panic show ?thesis by blast
next
  case False
  let ?b = "codec_BlockSize (codec (self w))"
  have lo: "int (length (heap w src)) mod int ?b = 0"
    using al zmod_int[of "length (heap w src)" ?b] by simp
  let ?cb = "codec_CryptBlocks (Slice dst 0 (int (length (heap w dst)))) (Slice src 0 (int (length (heap w src))))"
  show ?thesis
  proof (cases "encoder (self w)")
    case True
    have "CryptBlocks dst src (set_mode m w) = seq [?cb, ret] (set_mode m w)" if "m = CS1 \<or> m = CS2" for m
      using True False lo that by (auto simp add: CryptBlocks_def encode_def Let_def)
    moreover have "mode_blind (seq [?cb, ret])"
      by (simp add: mode_blind_seq_all mode_blind_intros)
    ultimately show ?thesis by blast
  next
    case F: False
    have "CryptBlocks dst src (set_mode m w) = ?cb (set_mode m w)" if "m = CS1 \<or> m = CS2" for m
      using F False lo that by (auto simp add: CryptBlocks_def decode_def Let_def)
    with mode_blind_codec_CryptBlocks show ?thesis by blast
  qed
qed

lemma CryptBlocks_unaligned_CS2_CS3:
  assumes al: "length (heap w src) mod codec_BlockSize (codec (self w)) \<noteq> 0"
  shows "\<exists>F. mode_blind F \<and> CryptBlocks dst src (set_mode CS2 w) = F (set_mode CS2 w) \<and>
              CryptBlocks dst src (set_mode CS3 w) = F (set_mode CS3 w)"
proof (cases "codec_BlockSize (codec (self w)) = 0")
  case True
  have "CryptBlocks dst src (set_mode m w) = panic IntegerDivideByZero (set_mode m w)" for m
    using True by (simp add: CryptBlocks_def encode_def decode_def Let_def)
  with mode_blind_panic show ?thesis by blast
next
  case False
  let ?b = "codec_BlockSize (codec (self w))"
  let ?blocksz = "int ?b"
  let ?textlen = "int (length (heap w src))"
  let ?dstlen = "int (length (heap w dst))"
  let ?leftover = "?textlen mod ?blocksz"
  let ?py = "?textlen + (?blocksz - ?leftover) - 2 * ?blocksz"
  let ?pz = "?textlen + (?blocksz - ?leftover) - ?blocksz"
  have lo: "?leftover \<noteq> 0"
    using al zmod_int[of "length (heap w src)" ?b] by simp
  have nz: "?blocksz \<noteq> 0" using False by simp
  show ?thesis
  proof (cases "encoder (self w)")
    case True
    let ?F = "if ?py < 0 then panic DataSizeTooSmall
              else seq [codec_CryptBlocks (Slice dst 0 ?py) (Slice src 0 ?py),
                        make_bytes tmp (2 * ?blocksz),
                        copy (Slice tmp 0 (?blocksz + ?leftover)) (Slice src ?py ?textlen),
                        codec_CryptBlocks (Slice tmp 0 (2 * ?blocksz)) (Slice tmp 0 (2 * ?blocksz)),
                        seq [copy (Slice dst ?py ?pz) (Slice tmp ?blocksz (2 * ?blocksz)),
                             copy (Slice dst ?pz ?dstlen) (Slice tmp 0 ?leftover)]]"
    have "CryptBlocks dst src (set_mode CS2 w) = ?F (set_mode CS2 w)"
      unfolding CryptBlocks_def encode_def Let_def
      by (simp only: set_mode_simps True if_True if_False nz lo CS_distinct simp_thms if_distribR)
    moreover have "CryptBlocks dst src (set_mode CS3 w) = ?F (set_mode CS3 w)"
      unfolding CryptBlocks_def encode_def Let_def
      by (simp only: set_mode_simps True if_True if_False nz lo CS_distinct simp_thms if_distribR)
    moreover have "mode_blind ?F"
      by (simp add: mode_blind_seq_all mode_blind_intros)
    ultimately show ?thesis by blast
  next
    case F: False
    let ?F = "if ?py < 0 then panic DataSizeTooSmall
              else seq (decode_scratch dst src CS3 ?blocksz ?leftover ?textlen ?py ?pz @
                        [codec_CryptBlocks (Slice tmp 0 (2 * ?blocksz)) (Slice tmp 0 (2 * ?blocksz)),
                         copy (Slice dst ?py ?dstlen) (Slice tmp 0 (2 * ?blocksz))])"
    have ds: "decode_scratch dst src CS2 bs l t py pz = decode_scratch dst src CS3 bs l t py pz" for bs l t py pz
      using CS_distinct by (simp add: decode_scratch_def)
    have "CryptBlocks dst src (set_mode CS2 w) = ?F (set_mode CS2 w)"
      unfolding CryptBlocks_def decode_def Let_def
      by (simp only: set_mode_simps F if_True if_False nz lo CS_distinct simp_thms if_distribR ds)
    moreover have "CryptBlocks dst src (set_mode CS3 w) = ?F (set_mode CS3 w)"
      unfolding CryptBlocks_def decode_def Let_def
      by (simp only: set_mode_simps F if_True if_False nz lo CS_distinct simp_thms if_distribR)
    moreover have "mode_blind ?F"
      by (simp add: decode_scratch_def CS_distinct mode_blind_seq_all mode_blind_intros)
    ultimately show ?thesis by blast
  qed
qed

lemma start_world_set_mode: "start_world (cd\<lparr>mode := m\<rparr>) data = set_mode m (start_world cd data)"
  by (simp add: start_world_def set_mode_def)

text \<open>
  C5. CS2 is adaptive. On the same data, cipher and chaining value, the transform set to CS2
  gives the same panic or success, the same destination bytes and the same codec state as
  the transform set to CS1 whenever the data length is a multiple of the block size, and the
  same as the transform set to CS3 whenever it is not. This holds for the encrypter and for
  the decrypter (\<open>cd\<close> is any transform object).
\<close>

theorem CS2_adaptive:
  "(length data mod codec_BlockSize (codec cd) = 0 \<longrightarrow>
      fst (process (cd\<lparr>mode := CS2\<rparr>) data) = fst (process (cd\<lparr>mode := CS1\<rparr>) data) \<and>
      fst (snd (process (cd\<lparr>mode := CS2\<rparr>) data)) = fst (snd (process (cd\<lparr>mode := CS1\<rparr>) data)) \<and>
      codec (snd (snd (process (cd\<lparr>mode := CS2\<rparr>) data))) =
        codec (snd (snd (process (cd\<lparr>mode := CS1\<rparr>) data)))) \<and>
   (length data mod codec_BlockSize (codec cd) \<noteq> 0 \<longrightarrow>
      fst (process (cd\<lparr>mode := CS2\<rparr>) data) = fst (process (cd\<lparr>mode := CS3\<rparr>) data) \<and>
      fst (snd (process (cd\<lparr>mode := CS2\<rparr>) data)) = fst (snd (process (cd\<lparr>mode := CS3\<rparr>) data)) \<and>
      codec (snd (snd (process (cd\<lparr>mode := CS2\<rparr>) data))) =
        codec (snd (snd (process (cd\<lparr>mode := CS3\<rparr>) data))))"
proof (intro conjI impI)
  let ?w = "start_world cd data"
  have hs: "heap ?w (Caller 0) = data" "codec (self ?w) = codec cd"
    by (simp_all add: start_world_def)
  {
    assume "length data mod codec_BlockSize (codec cd) = 0"
    then have "length (heap ?w (Caller 0)) mod codec_BlockSize (codec (self ?w)) = 0"
      by (simp add: hs)
    from CryptBlocks_aligned_CS2_CS1[OF this, of "Caller 1"] obtain F where
      F: "mode_blind F" "CryptBlocks (Caller 1) (Caller 0) (set_mode CS2 ?w) = F (set_mode CS2 ?w)"
         "CryptBlocks (Caller 1) (Caller 0) (set_mode CS1 ?w) = F (set_mode CS1 ?w)" by blast
    note s = mode_blind_same[OF F(1), of CS2 ?w CS1]
    show "fst (process (cd\<lparr>mode := CS2\<rparr>) data) = fst (process (cd\<lparr>mode := CS1\<rparr>) data)"
      unfolding process_def Let_def start_world_set_mode F(2,3) using s by simp
    show "fst (snd (process (cd\<lparr>mode := CS2\<rparr>) data)) = fst (snd (process (cd\<lparr>mode := CS1\<rparr>) data))"
      unfolding process_def Let_def start_world_set_mode F(2,3) using s by simp
    show "codec (snd (snd (process (cd\<lparr>mode := CS2\<rparr>) data))) =
          codec (snd (snd (process (cd\<lparr>mode := CS1\<rparr>) data)))"
      unfolding process_def Let_def start_world_set_mode F(2,3) using s by simp
  }
  {
    assume "length data mod codec_BlockSize (codec cd) \<noteq> 0"
    then have "length (heap ?w (Caller 0)) mod codec_BlockSize (codec (self ?w)) \<noteq> 0"
      by (simp add: hs)
    from CryptBlocks_unaligned_CS2_CS3[OF this, of "Caller 1"] obtain F where
      F: "mode_blind F" "CryptBlocks (Caller 1) (Caller 0) (set_mode CS2 ?w) = F (set_mode CS2 ?w)"
         "CryptBlocks (Caller 1) (Caller 0) (set_mode CS3 ?w) = F (set_mode CS3 ?w)" by blast
    note s = mode_blind_same[OF F(1), of CS2 ?w CS3]
    show "fst (process (cd\<lparr>mode := CS2\<rparr>) data) = fst (process (cd\<lparr>mode := CS3\<rparr>) data)"
      unfolding process_def Let_def start_world_set_mode F(2,3) using s by simp
    show "fst (snd (process (cd\<lparr>mode := CS2\<rparr>) data)) = fst (snd (process (cd\<lparr>mode := CS3\<rparr>) data))"
      unfolding process_def Let_def start_world_set_mode F(2,3) using s by simp
    show "codec (snd (snd (process (cd\<lparr>mode := CS2\<rparr>) data))) =
          codec (snd (snd (process (cd\<lparr>mode := CS3\<rparr>) data)))"
      unfolding process_def Let_def start_world_set_mode F(2,3) using s by simp
  }
qed

theorem CS2_adaptive_witness:
  "length [1, 2, 3, 4::byte] mod
     codec_BlockSize (codec \<lparr>encoder = True, block = toy, codec = CBCEncrypter toy [10, 20], mode = CS2\<rparr>) = 0 \<and>
   fst (snd (process (\<lparr>encoder = True, block = toy, codec = CBCEncrypter toy [10, 20], mode = CS2\<rparr>
                        \<lparr>mode := CS2\<rparr>) [1, 2, 3, 4])) =
   fst (snd (process (\<lparr>encoder = True, block = toy, codec = CBCEncrypter toy [10, 20], mode = CS2\<rparr>
                        \<lparr>mode := CS1\<rparr>) [1, 2, 3, 4])) \<and>
   length [1, 2, 3::byte] mod
     codec_BlockSize (codec \<lparr>encoder = True, block = toy, codec = CBCEncrypter toy [10, 20], mode = CS2\<rparr>) \<noteq> 0 \<and>
   fst (snd (process (\<lparr>encoder = True, block = toy, codec = CBCEncrypter toy [10, 20], mode = CS2\<rparr>
                        \<lparr>mode := CS2\<rparr>) [1, 2, 3])) =
   fst (snd (process (\<lparr>encoder = True, block = toy, codec = CBCEncrypter toy [10, 20], mode = CS2\<rparr>
                        \<lparr>mode := CS3\<rparr>) [1, 2, 3]))"
proof -
  let ?cd = "\<lparr>encoder = True, block = toy, codec = CBCEncrypter toy [10, 20], mode = CS2\<rparr>"
  have h1: "length [1, 2, 3, 4::byte] mod codec_BlockSize (codec ?cd) = 0"
    by (simp add: toy_def)
  have h2: "length [1, 2, 3::byte] mod codec_BlockSize (codec ?cd) \<noteq> 0"
    by (simp add: toy_def)
  from CS2_adaptive[of "[1, 2, 3, 4]" ?cd] h1
  have a: "fst (snd (process (?cd\<lparr>mode := CS2\<rparr>) [1, 2, 3, 4])) =
           fst (snd (process (?cd\<lparr>mode := CS1\<rparr>) [1, 2, 3, 4]))" by blast
  from CS2_adaptive[of "[1, 2, 3]" ?cd] h2
  have b: "fst (snd (process (?cd\<lparr>mode := CS2\<rparr>) [1, 2, 3])) =
           fst (snd (process (?cd\<lparr>mode := CS3\<rparr>) [1, 2, 3]))" by blast
  from h1 h2 a b show ?thesis by blast
qed

section \<open>Aligned data and the round trip\<close>


lemma aligned_split: "0 < (b::nat) \<Longrightarrow> n mod b = 0 \<Longrightarrow> n = (n div b) * b"
  by (metis mult.commute mult_div_mod_eq add.right_neutral)

lemma length_swap_last_two_blocks:
  "2 * b \<le> length xs \<Longrightarrow> length (swap_last_two_blocks b xs) = length xs"
  by (simp add: swap_last_two_blocks_def)

lemma swap_swap_last_two_blocks:
  assumes "2 * b \<le> length xs"
  shows "swap_last_two_blocks b (swap_last_two_blocks b xs) = xs"
proof -
  have "length xs = (length xs - 2 * b) + b + b" using assms by simp
  from split_lengths3[OF this] obtain a y z where
    s: "xs = a @ y @ z" "length a = length xs - 2 * b" "length y = b" "length z = b" by blast
  have "swap_last_two_blocks b (a @ y @ z) = a @ z @ y"
    using s by (simp add: swap_last_two_blocks_append)
  moreover have "swap_last_two_blocks b (a @ z @ y) = a @ y @ z"
    using s by (simp add: swap_last_two_blocks_append)
  ultimately show ?thesis unfolding s(1) by simp
qed

lemma stolen_block_restored:
  assumes ok: "block_ok blk" and b: "BlockSize blk = b"
    and l: "length E1 = b" "length pt = r" "r < b"
    and E2: "E2 = Encrypt blk (xorBytes (pt @ replicate (b - r) 0) E1)"
  shows "take r E1 @ drop r (Decrypt blk E2) = E1"
proof -
  have lx: "length (xorBytes (pt @ replicate (b - r) 0) E1) = b" using l by simp
  then have d: "Decrypt blk E2 = xorBytes (pt @ replicate (b - r) 0) E1"
    using ok b by (simp add: E2 block_ok_def)
  have "drop r (Decrypt blk E2) = xorBytes (replicate (b - r) 0) (drop r E1)"
    unfolding d drop_xorBytes using l by simp
  also have "\<dots> = take (b - r) (drop r E1)"
    using l by (intro xorBytes_zeros) simp
  also have "\<dots> = drop r E1" using l by simp
  finally show ?thesis by simp
qed

lemma tail_roundtrip:
  assumes ok: "block_ok blk" and b: "BlockSize blk = b"
    and l: "length iv1 = b" "length pm = b" "length pt = r" "r < b"
    and E1: "E1 = Encrypt blk (xorBytes pm iv1)"
    and E2: "E2 = Encrypt blk (xorBytes (pt @ replicate (b - r) 0) E1)"
  shows "take (b + r) (fst (cbc_decrypt blk 2 iv1 (take r E1 @ drop r (Decrypt blk E2) @ E2))) = pm @ pt"
proof -
  have lx1: "length (xorBytes pm iv1) = b" using l by simp
  then have lE1: "length E1 = b" and d1: "Decrypt blk E1 = xorBytes pm iv1"
    using ok b by (simp_all add: E1 block_ok_def)
  have lx2: "length (xorBytes (pt @ replicate (b - r) 0) E1) = b" using l lE1 by simp
  then have lE2: "length E2 = b" and d2: "Decrypt blk E2 = xorBytes (pt @ replicate (b - r) 0) E1"
    using ok b by (simp_all add: E2 block_ok_def)
  have T: "take r E1 @ drop r (Decrypt blk E2) @ E2 = E1 @ E2"
    using stolen_block_restored[OF ok b lE1 l(3,4) E2] by (simp add: append_assoc[symmetric] del: append_assoc)
  have x1: "xorBytes (xorBytes pm iv1) iv1 = pm"
    using l by (intro xorBytes_cancel) simp
  have x2: "xorBytes (xorBytes (pt @ replicate (b - r) 0) E1) E1 = pt @ replicate (b - r) 0"
    using l lE1 by (intro xorBytes_cancel) simp
  have "cbc_decrypt blk 2 iv1 (E1 @ E2) = (pm @ pt @ replicate (b - r) 0, E2)"
    using cbc_decrypt_two[of E1 blk iv1 E2] lE1 lE2 b d1 d2 x1 x2 by simp
  then show ?thesis
    unfolding T using l by simp
qed

lemma process_aligned_ok:
  assumes ok: "block_ok blk"
    and cd: "NewCBCCTSEncrypter blk iv m = Inr cd \<or> NewCBCCTSDecrypter blk iv m = Inr cd"
    and n: "length data mod BlockSize blk = 0" "m = CS3 \<longrightarrow> 2 * BlockSize blk \<le> length data"
  shows "fst (process cd data) = None \<and> length (fst (snd (process cd data))) = length data"
proof -
  let ?b = "BlockSize blk"
  define k where "k = length data div ?b"
  have b0: "0 < ?b" using ok by (simp add: block_ok_def)
  have ld: "length data = k * ?b" unfolding k_def using aligned_split[OF b0 n(1)] .
  have k2: "2 \<le> k" if "m = CS3"
  proof -
    from n(2) that have "2 * ?b \<le> k * ?b" unfolding ld by simp
    with b0 show ?thesis by simp
  qed
  from cd show ?thesis
  proof
    assume "NewCBCCTSEncrypter blk iv m = Inr cd"
    from NewCBCCTSEncrypter_Inr[OF this] have
      c: "codec cd = CBCEncrypter blk iv" "encoder cd" "mode cd = m" "m = CS1 \<or> m = CS2 \<or> m = CS3"
      and liv: "length iv = ?b" by auto
    have lc: "length (fst (cbc_encrypt blk k iv data)) = k * ?b" using ok liv ld by simp
    show ?thesis
    proof (cases "m = CS3")
      case True
      note res = process_encode_aligned_CS3[OF c(1,2) ok liv refl c(3)[unfolded True] ld k2[OF True]]
      have "2 * ?b \<le> k * ?b" using k2[OF True] by simp
      then show ?thesis
        unfolding res using lc ld by (simp add: length_swap_last_two_blocks)
    next
      case False
      with c have m12: "mode cd = CS1 \<or> mode cd = CS2" by simp
      note res = process_encode_aligned_CS12[OF c(1,2) ok liv refl m12 ld]
      show ?thesis unfolding res using lc ld by simp
    qed
  next
    assume "NewCBCCTSDecrypter blk iv m = Inr cd"
    from NewCBCCTSDecrypter_Inr[OF this] have
      c: "codec cd = CBCDecrypter blk iv" "\<not> encoder cd" "mode cd = m" "m = CS1 \<or> m = CS2 \<or> m = CS3"
      and liv: "length iv = ?b" by auto
    show ?thesis
    proof (cases "m = CS3")
      case True
      note res = process_decode_aligned_CS3[OF c(1,2) ok liv refl c(3)[unfolded True] ld k2[OF True]]
      have "2 * ?b \<le> length data" using k2[OF True] ld by simp
      then have "length (swap_last_two_blocks ?b data) = k * ?b"
        using ld by (simp add: length_swap_last_two_blocks)
      then have "length (fst (cbc_decrypt blk k iv (swap_last_two_blocks ?b data))) = k * ?b"
        using ok liv by simp
      then show ?thesis unfolding res using ld by simp
    next
      case False
      with c have m12: "mode cd = CS1 \<or> mode cd = CS2" by simp
      note res = process_decode_aligned_CS12[OF c(1,2) ok liv refl m12 ld]
      have "length (fst (cbc_decrypt blk k iv data)) = k * ?b" using ok liv ld by simp
      then show ?thesis unfolding res using ld by simp
    qed
  qed
qed

text \<open>
  C9. Length preservation. A fresh encrypter or decrypter, on an input of valid length
  (unaligned of at least \<open>b + 1\<close> bytes, or aligned and non-empty, with at least two blocks
  under CS3), returns without a panic and the output has exactly the length of the input.
\<close>

theorem length_preservation:
  assumes ok: "block_ok blk"
    and cd: "NewCBCCTSEncrypter blk iv m = Inr cd \<or> NewCBCCTSDecrypter blk iv m = Inr cd"
    and valid: "(length data mod BlockSize blk = 0 \<and> 0 < length data \<and>
                   (m = CS3 \<longrightarrow> 2 * BlockSize blk \<le> length data)) \<or>
                (length data mod BlockSize blk \<noteq> 0 \<and> BlockSize blk + 1 \<le> length data)"
  shows "fst (process cd data) = None \<and> length (fst (snd (process cd data))) = length data"
proof -
  from valid show ?thesis
  proof
    assume a: "length data mod BlockSize blk = 0 \<and> 0 < length data \<and>
               (m = CS3 \<longrightarrow> 2 * BlockSize blk \<le> length data)"
    then have "length data mod BlockSize blk = 0" "m = CS3 \<longrightarrow> 2 * BlockSize blk \<le> length data"
      by simp_all
    then show ?thesis by (rule process_aligned_ok[OF ok cd])
  next
    assume a: "length data mod BlockSize blk \<noteq> 0 \<and> BlockSize blk + 1 \<le> length data"
    then have "length data mod BlockSize blk \<noteq> 0" "BlockSize blk + 1 \<le> length data"
      by simp_all
    then show ?thesis by (rule process_unaligned_ok[OF ok cd])
  qed
qed

theorem length_preservation_witness:
  "block_ok toy \<and>
   NewCBCCTSDecrypter toy [10, 20] CS3 =
     Inr \<lparr>encoder = False, block = toy, codec = CBCDecrypter toy [10, 20], mode = CS3\<rparr> \<and>
   length [1, 2, 3::byte] mod BlockSize toy \<noteq> 0 \<and> BlockSize toy + 1 \<le> length [1, 2, 3::byte] \<and>
   fst (process \<lparr>encoder = False, block = toy, codec = CBCDecrypter toy [10, 20], mode = CS3\<rparr> [1, 2, 3]) = None \<and>
   length (fst (snd (process \<lparr>encoder = False, block = toy, codec = CBCDecrypter toy [10, 20], mode = CS3\<rparr>
                       [1, 2, 3]))) = length [1, 2, 3::byte]"
proof -
  let ?cd = "\<lparr>encoder = False, block = toy, codec = CBCDecrypter toy [10, 20], mode = CS3\<rparr>"
  have h1: "block_ok toy" by (rule toy_ok)
  have h2: "NewCBCCTSDecrypter toy [10, 20] CS3 = Inr ?cd"
    by (simp add: NewCBCCTSDecrypter_def NewCBCDecrypter_def CS1_def CS3_def toy_def)
  have h3: "length [1, 2, 3::byte] mod BlockSize toy \<noteq> 0 \<and> BlockSize toy + 1 \<le> length [1, 2, 3::byte]"
    by (simp add: toy_def)
  from length_preservation[OF h1 disjI2[OF h2] disjI2[OF h3]] h1 h2 h3 show ?thesis by blast
qed

text \<open>
  C6. On aligned input of at least two blocks the encrypter under CS1 or CS2 outputs exactly
  what the plain CBC encrypter loop \<open>cbc_encrypt\<close> outputs for the same cipher and IV, and
  under CS3 that ciphertext with its last two blocks exchanged.
\<close>

theorem aligned_equals_plain_cbc:
  assumes ok: "block_ok blk"
    and cd: "NewCBCCTSEncrypter blk iv m = Inr cd"
    and n: "length data mod BlockSize blk = 0" "2 * BlockSize blk \<le> length data"
  shows "fst (process cd data) = None \<and>
         (m = CS1 \<or> m = CS2 \<longrightarrow>
            fst (snd (process cd data)) =
              fst (cbc_encrypt blk (length data div BlockSize blk) iv data)) \<and>
         (m = CS3 \<longrightarrow>
            fst (snd (process cd data)) =
              swap_last_two_blocks (BlockSize blk)
                (fst (cbc_encrypt blk (length data div BlockSize blk) iv data)))"
proof -
  let ?b = "BlockSize blk"
  define k where "k = length data div ?b"
  have b0: "0 < ?b" using ok by (simp add: block_ok_def)
  have ld: "length data = k * ?b" unfolding k_def using aligned_split[OF b0 n(1)] .
  have k2: "2 \<le> k"
  proof -
    from n(2) have "2 * ?b \<le> k * ?b" unfolding ld by simp
    with b0 show ?thesis by simp
  qed
  from NewCBCCTSEncrypter_Inr[OF cd] have
    c: "codec cd = CBCEncrypter blk iv" "encoder cd" "mode cd = m" "m = CS1 \<or> m = CS2 \<or> m = CS3"
    and liv: "length iv = ?b" by auto
  show ?thesis
  proof (cases "m = CS3")
    case True
    note res = process_encode_aligned_CS3[OF c(1,2) ok liv refl c(3)[unfolded True] ld k2]
    show ?thesis unfolding res k_def[symmetric] using True CS_distinct by simp
  next
    case False
    with c have m12: "mode cd = CS1 \<or> mode cd = CS2" by simp
    note res = process_encode_aligned_CS12[OF c(1,2) ok liv refl m12 ld]
    show ?thesis unfolding res k_def[symmetric] using False by simp
  qed
qed

theorem aligned_equals_plain_cbc_witness:
  "block_ok toy \<and>
   NewCBCCTSEncrypter toy [10, 20] CS3 =
     Inr \<lparr>encoder = True, block = toy, codec = CBCEncrypter toy [10, 20], mode = CS3\<rparr> \<and>
   length [1, 2, 3, 4::byte] mod BlockSize toy = 0 \<and> 2 * BlockSize toy \<le> length [1, 2, 3, 4::byte] \<and>
   fst (snd (process \<lparr>encoder = True, block = toy, codec = CBCEncrypter toy [10, 20], mode = CS3\<rparr> [1, 2, 3, 4])) =
     swap_last_two_blocks (BlockSize toy)
       (fst (cbc_encrypt toy (length [1, 2, 3, 4::byte] div BlockSize toy) [10, 20] [1, 2, 3, 4]))"
proof -
  let ?cd = "\<lparr>encoder = True, block = toy, codec = CBCEncrypter toy [10, 20], mode = CS3\<rparr>"
  have h1: "block_ok toy" by (rule toy_ok)
  have h2: "NewCBCCTSEncrypter toy [10, 20] CS3 = Inr ?cd"
    by (simp add: NewCBCCTSEncrypter_def NewCBCEncrypter_def CS1_def CS3_def toy_def)
  have h3: "length [1, 2, 3, 4::byte] mod BlockSize toy = 0" "2 * BlockSize toy \<le> length [1, 2, 3, 4::byte]"
    by (simp_all add: toy_def)
  from aligned_equals_plain_cbc[OF h1 h2 h3] h1 h2 h3 show ?thesis by blast
qed


lemma NewCBCCTSEncrypter_ok:
  "length iv = BlockSize blk \<Longrightarrow> m = CS1 \<or> m = CS2 \<or> m = CS3 \<Longrightarrow>
   NewCBCCTSEncrypter blk iv m = Inr \<lparr>encoder = True, block = blk, codec = CBCEncrypter blk iv, mode = m\<rparr>"
  by (auto simp: NewCBCCTSEncrypter_def NewCBCEncrypter_def CS1_def CS2_def CS3_def)

lemma NewCBCCTSDecrypter_ok:
  "length iv = BlockSize blk \<Longrightarrow> m = CS1 \<or> m = CS2 \<or> m = CS3 \<Longrightarrow>
   NewCBCCTSDecrypter blk iv m = Inr \<lparr>encoder = False, block = blk, codec = CBCDecrypter blk iv, mode = m\<rparr>"
  by (auto simp: NewCBCCTSDecrypter_def NewCBCDecrypter_def CS1_def CS2_def CS3_def)

lemma roundtrip_aligned:
  assumes ok: "block_ok blk" and liv: "length iv = BlockSize blk"
    and m: "m = CS1 \<or> m = CS2 \<or> m = CS3"
    and n: "length data mod BlockSize blk = 0" "m = CS3 \<longrightarrow> 2 * BlockSize blk \<le> length data"
  shows "roundtrip blk iv m data"
proof -
  let ?b = "BlockSize blk"
  let ?E = "\<lparr>encoder = True, block = blk, codec = CBCEncrypter blk iv, mode = m\<rparr>"
  let ?D = "\<lparr>encoder = False, block = blk, codec = CBCDecrypter blk iv, mode = m\<rparr>"
  note cE = NewCBCCTSEncrypter_ok[OF liv m] and cD = NewCBCCTSDecrypter_ok[OF liv m]
  define k where "k = length data div ?b"
  define c where "c = fst (cbc_encrypt blk k iv data)"
  have b0: "0 < ?b" using ok by (simp add: block_ok_def)
  have ld: "length data = k * ?b" unfolding k_def using aligned_split[OF b0 n(1)] .
  have lc: "length c = k * ?b" using ok liv ld by (simp add: c_def)
  have rt: "fst (cbc_decrypt blk k iv c) = data"
    unfolding c_def using cbc_roundtrip[OF ok liv ld] by simp
  have "\<exists>ct E' D'. process ?E data = (None, ct, E') \<and> process ?D ct = (None, data, D')"
  proof (cases "m = CS3")
    case True
    have k2: "2 \<le> k"
    proof -
      from n(2) True have "2 * ?b \<le> k * ?b" unfolding ld by simp
      with b0 show ?thesis by simp
    qed
    have l2: "2 * ?b \<le> length c" using k2 lc by simp
    have pe: "process ?E data = (None, swap_last_two_blocks ?b c,
                ?E\<lparr>codec := CBCEncrypter blk (snd (cbc_encrypt blk k iv data))\<rparr>)"
      unfolding c_def
      by (rule process_encode_aligned_CS3[OF _ _ ok liv refl _ ld k2]) (simp_all add: True)
    have ls: "length (swap_last_two_blocks ?b c) = k * ?b"
      using l2 lc by (simp add: length_swap_last_two_blocks)
    have pd: "process ?D (swap_last_two_blocks ?b c) =
               (None, fst (cbc_decrypt blk k iv (swap_last_two_blocks ?b (swap_last_two_blocks ?b c))),
                ?D\<lparr>codec := CBCDecrypter blk
                     (snd (cbc_decrypt blk k iv (swap_last_two_blocks ?b (swap_last_two_blocks ?b c))))\<rparr>)"
      by (rule process_decode_aligned_CS3[OF _ _ ok liv refl _ ls k2]) (simp_all add: True)
    show ?thesis
      using pe pd rt by (simp add: swap_swap_last_two_blocks[OF l2])
  next
    case False
    with m have m12: "m = CS1 \<or> m = CS2" by simp
    have pe: "process ?E data = (None, c, ?E\<lparr>codec := CBCEncrypter blk (snd (cbc_encrypt blk k iv data))\<rparr>)"
      unfolding c_def
      by (rule process_encode_aligned_CS12[OF _ _ ok liv refl _ ld]) (simp_all add: m12)
    have pd: "process ?D c = (None, fst (cbc_decrypt blk k iv c),
                ?D\<lparr>codec := CBCDecrypter blk (snd (cbc_decrypt blk k iv c))\<rparr>)"
      by (rule process_decode_aligned_CS12[OF _ _ ok liv refl _ lc]) (simp_all add: m12)
    show ?thesis using pe pd rt by simp
  qed
  then obtain ct E' D' where "process ?E data = (None, ct, E')" "process ?D ct = (None, data, D')"
    by blast
  then show ?thesis
    unfolding roundtrip_def cE cD by simp
qed

lemma roundtrip_unaligned:
  assumes ok: "block_ok blk" and liv: "length iv = BlockSize blk"
    and m: "m = CS1 \<or> m = CS2 \<or> m = CS3"
    and n: "length data mod BlockSize blk \<noteq> 0" "BlockSize blk + 1 \<le> length data"
  shows "roundtrip blk iv m data"
proof -
  let ?b = "BlockSize blk"
  let ?E = "\<lparr>encoder = True, block = blk, codec = CBCEncrypter blk iv, mode = m\<rparr>"
  let ?D = "\<lparr>encoder = False, block = blk, codec = CBCDecrypter blk iv, mode = m\<rparr>"
  note cE = NewCBCCTSEncrypter_ok[OF liv m] and cD = NewCBCCTSDecrypter_ok[OF liv m]
  have b0: "0 < ?b" using ok by (simp add: block_ok_def)
  from unaligned_split[OF b0 n] obtain k r where
    kr: "length data = k * ?b + ?b + r" "0 < r" "r < ?b" by blast
  from split_lengths3[OF kr(1)] obtain pre pm pt where
    d: "data = pre @ pm @ pt" "length pre = k * ?b" "length pm = ?b" "length pt = r" by blast
  define cpre where "cpre = fst (cbc_encrypt blk k iv pre)"
  define iv1 where "iv1 = snd (cbc_encrypt blk k iv pre)"
  define E1 where "E1 = Encrypt blk (xorBytes pm iv1)"
  define E2 where "E2 = Encrypt blk (xorBytes (pt @ replicate (?b - r) 0) E1)"
  define ct where "ct = cpre @ (if m = CS1 then take r E1 @ E2 else E2 @ take r E1)"
  have l1: "length (Encrypt blk x) = ?b" if "length x = ?b" for x
    using ok that by (simp add: block_ok_def)
  have liv1: "length iv1 = ?b" using ok liv d(2) by (simp add: iv1_def)
  have lE1: "length E1 = ?b" using l1 liv1 d(3) by (simp add: E1_def)
  have lE2: "length E2 = ?b" using l1 lE1 d(4) kr(3) by (simp add: E2_def)
  have lcpre: "length cpre = k * ?b" using ok liv d(2) by (simp add: cpre_def)
  have lX: "length (take r E1) = r" using lE1 kr(3) by simp
  have rt: "cbc_decrypt blk k iv cpre = (pre, iv1)"
    unfolding cpre_def iv1_def by (rule cbc_roundtrip[OF ok liv d(2)])
  have pe: "process ?E data = (None, ct, ?E\<lparr>codec := CBCEncrypter blk E2\<rparr>)"
    using process_encode_unaligned[where cd="?E" and blk=blk and iv=iv and b="?b" and k=k and r=r
             and pre=pre and pm=pm and pt=pt and ?iv1.0=iv1 and ?E1.0=E1 and ?E2.0=E2]
          ok liv m d(2,3,4) kr(2,3)
    by (simp add: d(1) ct_def cpre_def iv1_def E1_def E2_def)
  have pd: "process ?D ct =
     (None,
      fst (cbc_decrypt blk k iv cpre) @
        take (?b + r) (fst (cbc_decrypt blk 2 (snd (cbc_decrypt blk k iv cpre))
                              (take r E1 @ drop r (Decrypt blk E2) @ E2))),
      ?D\<lparr>codec := CBCDecrypter blk E2\<rparr>)"
    using process_decode_unaligned[where cd="?D" and blk=blk and iv=iv and b="?b" and k=k and r=r
             and cpre=cpre and X="take r E1" and Y=E2 and ?iv1.0="snd (cbc_decrypt blk k iv cpre)"]
          ok liv m lcpre lX lE2 kr(2,3)
    by (simp add: ct_def)
  have tl: "take (?b + r) (fst (cbc_decrypt blk 2 iv1 (take r E1 @ drop r (Decrypt blk E2) @ E2))) = pm @ pt"
    by (rule tail_roundtrip[OF ok refl liv1 d(3,4) kr(3) E1_def E2_def])
  have "process ?D ct = (None, data, ?D\<lparr>codec := CBCDecrypter blk E2\<rparr>)"
    unfolding pd rt fst_conv snd_conv tl d(1) by simp
  with pe show ?thesis
    unfolding roundtrip_def cE cD by simp
qed

text \<open>
  C1 (amended). Round trip: for every block cipher whose decryption undoes its encryption,
  every IV of block length and every format, decoding with a fresh decrypter what a fresh
  encrypter produced returns the data, for every unaligned length of at least \<open>b + 1\<close> and
  every aligned non-empty length; under CS3 the aligned length must be at least two blocks.
\<close>

theorem roundtrip_valid_lengths:
  assumes ok: "block_ok blk" and liv: "length iv = BlockSize blk"
    and m: "m = CS1 \<or> m = CS2 \<or> m = CS3"
    and valid: "(length data mod BlockSize blk = 0 \<and> 0 < length data \<and>
                   (m = CS3 \<longrightarrow> 2 * BlockSize blk \<le> length data)) \<or>
                (length data mod BlockSize blk \<noteq> 0 \<and> BlockSize blk + 1 \<le> length data)"
  shows "roundtrip blk iv m data"
proof -
  from valid show ?thesis
  proof
    assume "length data mod BlockSize blk = 0 \<and> 0 < length data \<and>
            (m = CS3 \<longrightarrow> 2 * BlockSize blk \<le> length data)"
    then have "length data mod BlockSize blk = 0" "m = CS3 \<longrightarrow> 2 * BlockSize blk \<le> length data"
      by simp_all
    then show ?thesis by (rule roundtrip_aligned[OF ok liv m])
  next
    assume "length data mod BlockSize blk \<noteq> 0 \<and> BlockSize blk + 1 \<le> length data"
    then have "length data mod BlockSize blk \<noteq> 0" "BlockSize blk + 1 \<le> length data"
      by simp_all
    then show ?thesis by (rule roundtrip_unaligned[OF ok liv m])
  qed
qed

theorem roundtrip_valid_lengths_witness:
  "block_ok toy \<and> length [10, 20::byte] = BlockSize toy \<and> (CS3 = CS1 \<or> CS3 = CS2 \<or> CS3 = CS3) \<and>
   ((length [1, 2, 3, 4::byte] mod BlockSize toy = 0 \<and> 0 < length [1, 2, 3, 4::byte] \<and>
       (CS3 = CS3 \<longrightarrow> 2 * BlockSize toy \<le> length [1, 2, 3, 4::byte])) \<or>
    (length [1, 2, 3, 4::byte] mod BlockSize toy \<noteq> 0 \<and> BlockSize toy + 1 \<le> length [1, 2, 3, 4::byte])) \<and>
   roundtrip toy [10, 20] CS3 [1, 2, 3, 4]"
proof -
  have h1: "block_ok toy" by (rule toy_ok)
  have h2: "length [10, 20::byte] = BlockSize toy" by (simp add: toy_def)
  have h3: "CS3 = CS1 \<or> CS3 = CS2 \<or> CS3 = CS3" by simp
  have h4: "(length [1, 2, 3, 4::byte] mod BlockSize toy = 0 \<and> 0 < length [1, 2, 3, 4::byte] \<and>
              (CS3 = CS3 \<longrightarrow> 2 * BlockSize toy \<le> length [1, 2, 3, 4::byte])) \<or>
            (length [1, 2, 3, 4::byte] mod BlockSize toy \<noteq> 0 \<and> BlockSize toy + 1 \<le> length [1, 2, 3, 4::byte])"
    by (simp add: toy_def)
  from roundtrip_valid_lengths[OF h1 h2 h3 h4] h1 h2 h3 h4 show ?thesis by blast
qed

text \<open>
  The claim as stated also covers one aligned block under CS3; there the encrypter panics.
\<close>

theorem roundtrip_CS3_one_block_counterexample:
  "\<not> roundtrip toy [10, 20] CS3 [1, 2]"
  by code_simp



section \<open>Streaming and the scratch buffer of decode\<close>


lemma cbccts_codec_update_twice: "(cd\<lparr>codec := a\<rparr>)\<lparr>codec := c\<rparr> = cd\<lparr>codec := c\<rparr>"
  by simp

lemma streaming_encrypter:
  assumes ok: "block_ok blk" and m: "m = CS1 \<or> m = CS2"
    and cd: "NewCBCCTSEncrypter blk iv m = Inr cd"
    and p: "length p mod BlockSize blk = 0"
    and s: "(length s mod BlockSize blk = 0) \<or>
            (length s mod BlockSize blk \<noteq> 0 \<and> BlockSize blk + 1 \<le> length s)"
  shows "\<exists>o1 cd1 o2 cd2. process cd p = (None, o1, cd1) \<and> process cd1 s = (None, o2, cd2) \<and>
           process cd (p @ s) = (None, o1 @ o2, cd2)"
proof -
  let ?b = "BlockSize blk"
  have b0: "0 < ?b" using ok by (simp add: block_ok_def)
  from NewCBCCTSEncrypter_Inr[OF cd] have
    c: "codec cd = CBCEncrypter blk iv" "encoder cd" "mode cd = m"
    and liv: "length iv = ?b" by auto
  have m12: "mode cd = CS1 \<or> mode cd = CS2" and m123: "mode cd = CS1 \<or> mode cd = CS2 \<or> mode cd = CS3"
    using m c(3) by auto
  define kp where "kp = length p div ?b"
  have lp: "length p = kp * ?b" unfolding kp_def using aligned_split[OF b0 p] .
  define cp where "cp = fst (cbc_encrypt blk kp iv p)"
  define ivp where "ivp = snd (cbc_encrypt blk kp iv p)"
  define cd1 where "cd1 = cd\<lparr>codec := CBCEncrypter blk ivp\<rparr>"
  have livp: "length ivp = ?b" using ok liv lp by (simp add: ivp_def)
  have r1: "process cd p = (None, cp, cd1)"
    unfolding cp_def cd1_def ivp_def by (rule process_encode_aligned_CS12[OF c(1,2) ok liv refl m12 lp])
  have c1: "codec cd1 = CBCEncrypter blk ivp" "encoder cd1" "mode cd1 = CS1 \<or> mode cd1 = CS2"
           "mode cd1 = CS1 \<or> mode cd1 = CS2 \<or> mode cd1 = CS3" "mode cd1 = mode cd"
    using c(2) m12 by (auto simp add: cd1_def)
  from s show ?thesis
  proof
    assume sa: "length s mod ?b = 0"
    define ks where "ks = length s div ?b"
    have ls: "length s = ks * ?b" unfolding ks_def using aligned_split[OF b0 sa] .
    have lps: "length (p @ s) = (kp + ks) * ?b" using lp ls by (simp add: add_mult_distrib)
    note ap = cbc_encrypt_append[OF lp, of ks iv s, folded cp_def ivp_def]
    have r2: "process cd1 s = (None, fst (cbc_encrypt blk ks ivp s),
                cd\<lparr>codec := CBCEncrypter blk (snd (cbc_encrypt blk ks ivp s))\<rparr>)"
      using process_encode_aligned_CS12[OF c1(1,2) ok livp refl c1(3) ls]
      by (simp add: cd1_def)
    have r: "process cd (p @ s) = (None, cp @ fst (cbc_encrypt blk ks ivp s),
                cd\<lparr>codec := CBCEncrypter blk (snd (cbc_encrypt blk ks ivp s))\<rparr>)"
      using process_encode_aligned_CS12[OF c(1,2) ok liv refl m12 lps]
      unfolding ap by simp
    from r1 r2 r show ?thesis by blast
  next
    assume su: "length s mod ?b \<noteq> 0 \<and> ?b + 1 \<le> length s"
    then have su': "length s mod ?b \<noteq> 0" "?b + 1 \<le> length s" by simp_all
    from unaligned_split[OF b0 su'] obtain k r where
      kr: "length s = k * ?b + ?b + r" "0 < r" "r < ?b" by blast
    from split_lengths3[OF kr(1)] obtain pre pm pt where
      d: "s = pre @ pm @ pt" "length pre = k * ?b" "length pm = ?b" "length pt = r" by blast
    have lpp: "length (p @ pre) = (kp + k) * ?b" using lp d(2) by (simp add: add_mult_distrib)
    note ap = cbc_encrypt_append[OF lp, of k iv pre, folded cp_def ivp_def]
    define iv1 where "iv1 = snd (cbc_encrypt blk k ivp pre)"
    define E1 where "E1 = Encrypt blk (xorBytes pm iv1)"
    define E2 where "E2 = Encrypt blk (xorBytes (pt @ replicate (?b - r) 0) E1)"
    define t where "t = (if mode cd = CS1 then take r E1 @ E2 else E2 @ take r E1)"
    have iv1': "iv1 = snd (cbc_encrypt blk (kp + k) iv (p @ pre))"
      unfolding ap iv1_def by simp
    have r2: "process cd1 (pre @ pm @ pt) = (None, fst (cbc_encrypt blk k ivp pre) @ t,
                cd\<lparr>codec := CBCEncrypter blk E2\<rparr>)"
      using process_encode_unaligned[OF c1(1,2) ok livp refl c1(4) d(2,3,4) kr(2,3) iv1_def E1_def E2_def]
      by (simp add: cd1_def t_def)
    have r: "process cd ((p @ pre) @ pm @ pt) = (None, (cp @ fst (cbc_encrypt blk k ivp pre)) @ t,
                cd\<lparr>codec := CBCEncrypter blk E2\<rparr>)"
      using process_encode_unaligned[OF c(1,2) ok liv refl m123 lpp d(3,4) kr(2,3) iv1' E1_def E2_def]
      unfolding ap by (simp add: t_def)
    from r1 r2 r show ?thesis unfolding d(1) by auto
  qed
qed

lemma streaming_decrypter:
  assumes ok: "block_ok blk" and m: "m = CS1 \<or> m = CS2"
    and cd: "NewCBCCTSDecrypter blk iv m = Inr cd"
    and p: "length p mod BlockSize blk = 0"
    and s: "(length s mod BlockSize blk = 0) \<or>
            (length s mod BlockSize blk \<noteq> 0 \<and> BlockSize blk + 1 \<le> length s)"
  shows "\<exists>o1 cd1 o2 cd2. process cd p = (None, o1, cd1) \<and> process cd1 s = (None, o2, cd2) \<and>
           process cd (p @ s) = (None, o1 @ o2, cd2)"
proof -
  let ?b = "BlockSize blk"
  have b0: "0 < ?b" using ok by (simp add: block_ok_def)
  from NewCBCCTSDecrypter_Inr[OF cd] have
    c: "codec cd = CBCDecrypter blk iv" "\<not> encoder cd" "block cd = blk" "mode cd = m"
    and liv: "length iv = ?b" by auto
  have m12: "mode cd = CS1 \<or> mode cd = CS2" and m123: "mode cd = CS1 \<or> mode cd = CS2 \<or> mode cd = CS3"
    using m c(4) by auto
  define kp where "kp = length p div ?b"
  have lp: "length p = kp * ?b" unfolding kp_def using aligned_split[OF b0 p] .
  define cp where "cp = fst (cbc_decrypt blk kp iv p)"
  define ivp where "ivp = snd (cbc_decrypt blk kp iv p)"
  define cd1 where "cd1 = cd\<lparr>codec := CBCDecrypter blk ivp\<rparr>"
  have livp: "length ivp = ?b" using ok liv lp by (simp add: ivp_def)
  have r1: "process cd p = (None, cp, cd1)"
    unfolding cp_def cd1_def ivp_def by (rule process_decode_aligned_CS12[OF c(1,2) ok liv refl m12 lp])
  have c1: "codec cd1 = CBCDecrypter blk ivp" "\<not> encoder cd1" "block cd1 = blk"
           "mode cd1 = CS1 \<or> mode cd1 = CS2"
           "mode cd1 = CS1 \<or> mode cd1 = CS2 \<or> mode cd1 = CS3" "mode cd1 = mode cd"
    using c(2,3) m12 by (auto simp add: cd1_def)
  from s show ?thesis
  proof
    assume sa: "length s mod ?b = 0"
    define ks where "ks = length s div ?b"
    have ls: "length s = ks * ?b" unfolding ks_def using aligned_split[OF b0 sa] .
    have lps: "length (p @ s) = (kp + ks) * ?b" using lp ls by (simp add: add_mult_distrib)
    note ap = cbc_decrypt_append[OF lp, of ks iv s, folded cp_def ivp_def]
    have r2: "process cd1 s = (None, fst (cbc_decrypt blk ks ivp s),
                cd\<lparr>codec := CBCDecrypter blk (snd (cbc_decrypt blk ks ivp s))\<rparr>)"
      using process_decode_aligned_CS12[OF c1(1,2) ok livp refl c1(4) ls]
      by (simp add: cd1_def)
    have r: "process cd (p @ s) = (None, cp @ fst (cbc_decrypt blk ks ivp s),
                cd\<lparr>codec := CBCDecrypter blk (snd (cbc_decrypt blk ks ivp s))\<rparr>)"
      using process_decode_aligned_CS12[OF c(1,2) ok liv refl m12 lps]
      unfolding ap by simp
    from r1 r2 r show ?thesis by blast
  next
    assume su: "length s mod ?b \<noteq> 0 \<and> ?b + 1 \<le> length s"
    then have su': "length s mod ?b \<noteq> 0" "?b + 1 \<le> length s" by simp_all
    from unaligned_split[OF b0 su'] obtain k r where
      kr: "length s = k * ?b + ?b + r" "0 < r" "r < ?b" by blast
    obtain cpre X Y where
      d: "s = cpre @ (if mode cd = CS1 then X @ Y else Y @ X)"
         "length cpre = k * ?b" "length X = r" "length Y = ?b"
    proof (cases "mode cd = CS1")
      case True
      have "length s = k * ?b + r + ?b" using kr(1) by simp
      from split_lengths3[OF this] True that show ?thesis by auto
    next
      case False
      from split_lengths3[OF kr(1)] False that show ?thesis by auto
    qed
    let ?t = "if mode cd = CS1 then X @ Y else Y @ X"
    have lpp: "length (p @ cpre) = (kp + k) * ?b" using lp d(2) by (simp add: add_mult_distrib)
    note ap = cbc_decrypt_append[OF lp, of k iv cpre, folded cp_def ivp_def]
    define iv1 where "iv1 = snd (cbc_decrypt blk k ivp cpre)"
    define P where "P = take (?b + r) (fst (cbc_decrypt blk 2 iv1 (X @ drop r (Decrypt blk Y) @ Y)))"
    have iv1': "iv1 = snd (cbc_decrypt blk (kp + k) iv (p @ cpre))"
      unfolding ap iv1_def by simp
    have t1: "(if mode cd1 = CS1 then X @ Y else Y @ X) = ?t" by (simp add: c1(6))
    have r2: "process cd1 (cpre @ ?t) = (None, fst (cbc_decrypt blk k ivp cpre) @ P,
                cd\<lparr>codec := CBCDecrypter blk Y\<rparr>)"
      using process_decode_unaligned[OF c1(1,2,3) ok livp refl c1(5) d(2,3,4) kr(2,3) iv1_def]
      unfolding t1 by (simp add: cd1_def P_def)
    have r: "process cd ((p @ cpre) @ ?t) = (None, (cp @ fst (cbc_decrypt blk k ivp cpre)) @ P,
                cd\<lparr>codec := CBCDecrypter blk Y\<rparr>)"
      using process_decode_unaligned[OF c(1,2,3) ok liv refl m123 lpp d(3,4) kr(2,3) iv1']
      unfolding ap by (simp add: P_def)
    from r1 r2 r show ?thesis unfolding d(1) by auto
  qed
qed

text \<open>
  C4 (amended). Streaming continuation under CS1 and CS2: for a fresh encrypter or decrypter,
  a non-empty block-aligned prefix \<open>p\<close> and a remainder \<open>s\<close> of valid length, processing \<open>p\<close>
  and then \<open>s\<close> on the same instance succeeds twice, and processing \<open>p @ s\<close> at once on the
  fresh instance gives the concatenation of the two outputs and leaves the instance in the
  same state.
\<close>

theorem streaming_continuation_CS1_CS2:
  assumes ok: "block_ok blk" and m: "m = CS1 \<or> m = CS2"
    and cd: "NewCBCCTSEncrypter blk iv m = Inr cd \<or> NewCBCCTSDecrypter blk iv m = Inr cd"
    and p: "length p mod BlockSize blk = 0" "0 < length p"
    and s: "(length s mod BlockSize blk = 0 \<and> 0 < length s) \<or>
            (length s mod BlockSize blk \<noteq> 0 \<and> BlockSize blk + 1 \<le> length s)"
  shows "fst (process cd p) = None \<and>
         fst (process (snd (snd (process cd p))) s) = None \<and>
         process cd (p @ s) =
           (None,
            fst (snd (process cd p)) @ fst (snd (process (snd (snd (process cd p))) s)),
            snd (snd (process (snd (snd (process cd p))) s)))"
proof -
  from s have s': "(length s mod BlockSize blk = 0) \<or>
                   (length s mod BlockSize blk \<noteq> 0 \<and> BlockSize blk + 1 \<le> length s)" by blast
  have "\<exists>o1 cd1 o2 cd2. process cd p = (None, o1, cd1) \<and> process cd1 s = (None, o2, cd2) \<and>
           process cd (p @ s) = (None, o1 @ o2, cd2)"
    using cd streaming_encrypter[OF ok m _ p(1) s'] streaming_decrypter[OF ok m _ p(1) s'] by blast
  then obtain o1 cd1 o2 cd2 where
    "process cd p = (None, o1, cd1)" "process cd1 s = (None, o2, cd2)"
    "process cd (p @ s) = (None, o1 @ o2, cd2)" by blast
  then show ?thesis by simp
qed

theorem streaming_continuation_CS1_CS2_witness:
  "block_ok toy \<and> (CS1 = CS1 \<or> CS1 = CS2) \<and>
   NewCBCCTSEncrypter toy [10, 20] CS1 =
     Inr \<lparr>encoder = True, block = toy, codec = CBCEncrypter toy [10, 20], mode = CS1\<rparr> \<and>
   length [1, 2, 3, 4::byte] mod BlockSize toy = 0 \<and> 0 < length [1, 2, 3, 4::byte] \<and>
   length [5, 6, 7::byte] mod BlockSize toy \<noteq> 0 \<and> BlockSize toy + 1 \<le> length [5, 6, 7::byte] \<and>
   fst (snd (process \<lparr>encoder = True, block = toy, codec = CBCEncrypter toy [10, 20], mode = CS1\<rparr>
               ([1, 2, 3, 4] @ [5, 6, 7]))) =
     fst (snd (process \<lparr>encoder = True, block = toy, codec = CBCEncrypter toy [10, 20], mode = CS1\<rparr>
                 [1, 2, 3, 4])) @
     fst (snd (process (snd (snd (process
                   \<lparr>encoder = True, block = toy, codec = CBCEncrypter toy [10, 20], mode = CS1\<rparr>
                   [1, 2, 3, 4]))) [5, 6, 7]))"
proof -
  let ?cd = "\<lparr>encoder = True, block = toy, codec = CBCEncrypter toy [10, 20], mode = CS1\<rparr>"
  have h1: "block_ok toy" by (rule toy_ok)
  have h2: "CS1 = CS1 \<or> CS1 = CS2" by simp
  have h3: "NewCBCCTSEncrypter toy [10, 20] CS1 = Inr ?cd"
    by (simp add: NewCBCCTSEncrypter_def NewCBCEncrypter_def CS1_def CS3_def toy_def)
  have h4: "length [1, 2, 3, 4::byte] mod BlockSize toy = 0" "0 < length [1, 2, 3, 4::byte]"
    by (simp_all add: toy_def)
  have h5: "length [5, 6, 7::byte] mod BlockSize toy \<noteq> 0 \<and> BlockSize toy + 1 \<le> length [5, 6, 7::byte]"
    by (simp add: toy_def)
  from streaming_continuation_CS1_CS2[OF h1 h2 disjI1[OF h3] h4 disjI2[OF h5]]
  have "fst (snd (process ?cd ([1, 2, 3, 4] @ [5, 6, 7]))) =
        fst (snd (process ?cd [1, 2, 3, 4])) @
        fst (snd (process (snd (snd (process ?cd [1, 2, 3, 4]))) [5, 6, 7]))"
    by (simp only: fst_conv snd_conv)
  with h1 h2 h3 h4 h5 show ?thesis by blast
qed

text \<open>
  Under CS3 every aligned call exchanges its own last two blocks, so the two calls on
  \<open>[1, 2, 3, 4]\<close> and \<open>[5, 6, 7, 8]\<close> and the single call on the eight bytes all succeed and
  give different bytes.
\<close>

theorem streaming_CS3_counterexample:
  "(case NewCBCCTSEncrypter toy [10, 20] CS3 of
      Inl e \<Rightarrow> False
    | Inr cd \<Rightarrow>
        (let r1 = process cd [1, 2, 3, 4];
             r2 = process (snd (snd r1)) [5, 6, 7, 8];
             r = process cd ([1, 2, 3, 4] @ [5, 6, 7, 8])
         in fst r1 = None \<and> fst r2 = None \<and> fst r = None \<and>
            fst (snd r) \<noteq> fst (snd r1) @ fst (snd r2)))"
  by code_simp



text \<open>
  C8. Stolen-byte recovery in the unaligned decode. Let \<open>ct\<close> be what a fresh encrypter
  produced from unaligned data of at least \<open>b + 1\<close> bytes, \<open>partial\<close> its \<open>r\<close> transmitted bytes of
  the truncated block and \<open>full\<close> its full last block, both read in the order of the format.
  When the decrypter has run up to the final chained decryption, its scratch buffer holds
  the transmitted partial bytes untouched in \<open>[0, r)\<close>, the bytes \<open>[r, b)\<close> of the single-block
  decryption of \<open>full\<close> in \<open>[r, b)\<close>, and \<open>full\<close> in \<open>[b, 2b)\<close>; and its first block equals the
  first block of the encrypter's scratch buffer, the complete ciphertext of the borrowed
  block.
\<close>

theorem stolen_bytes_recovered:
  assumes ok: "block_ok blk"
    and enc: "NewCBCCTSEncrypter blk iv m = Inr modeEnc"
    and dec: "NewCBCCTSDecrypter blk iv m = Inr modeDec"
    and n: "length data mod BlockSize blk \<noteq> 0" "BlockSize blk + 1 \<le> length data"
    and b: "b = BlockSize blk" and r: "r = length data mod b" and len: "n = length data"
    and ct: "ct = fst (snd (process modeEnc data))"
    and part: "partial = (if m = CS1 then take r (drop (n - b - r) ct) else drop (n - r) ct)"
    and full: "full = (if m = CS1 then drop (n - b) ct else take b (drop (n - b - r) ct))"
  shows "(let wE = snd (CryptBlocks (Caller 1) (Caller 0) (start_world modeEnc data));
              S = seq (decode_scratch (Caller 1) (Caller 0) m (int b) (int r) (int n)
                         (int n + (int b - int r) - 2 * int b) (int n + (int b - int r) - int b))
                    (start_world modeDec ct)
          in fst S = None \<and>
             take r (heap (snd S) tmp) = partial \<and>
             drop r (take b (heap (snd S) tmp)) = drop r (Decrypt blk full) \<and>
             drop b (heap (snd S) tmp) = full \<and>
             take b (heap (snd S) tmp) = take b (heap wE tmp))"
proof -
  define wE where "wE = snd (CryptBlocks (Caller 1) (Caller 0) (start_world modeEnc data))"
  define S where "S = seq (decode_scratch (Caller 1) (Caller 0) m (int b) (int r) (int n)
                       (int n + (int b - int r) - 2 * int b) (int n + (int b - int r) - int b))
                  (start_world modeDec ct)"
  note wE = wE_def and S = S_def
  have b0: "0 < BlockSize blk" using ok by (simp add: block_ok_def)
  from unaligned_split[OF b0 n] obtain k r' where
    kr: "length data = k * BlockSize blk + BlockSize blk + r'" "0 < r'" "r' < BlockSize blk" by blast
  have "k * BlockSize blk + BlockSize blk + r' = r' + Suc k * BlockSize blk" by simp
  then have "length data mod BlockSize blk = r' mod BlockSize blk"
    unfolding kr(1) by (simp only: mod_mult_self1)
  with kr(3) have rr: "r = r'" by (simp add: r b)
  have kr': "n = k * b + b + r" "0 < r" "r < b" using kr by (simp_all add: rr b len)
  from split_lengths3[OF kr(1)] obtain pre pm pt where
    d: "data = pre @ pm @ pt" "length pre = k * b" "length pm = b" "length pt = r"
    unfolding rr[symmetric] b[symmetric] by blast
  from NewCBCCTSEncrypter_Inr[OF enc] have
    cE: "codec modeEnc = CBCEncrypter blk iv" "encoder modeEnc" "mode modeEnc = m"
        "m = CS1 \<or> m = CS2 \<or> m = CS3"
    and liv: "length iv = b" by (auto simp: b)
  from NewCBCCTSDecrypter_Inr[OF dec] have
    cD: "codec modeDec = CBCDecrypter blk iv" "block modeDec = blk" "mode modeDec = m" by auto
  have mE: "mode modeEnc = CS1 \<or> mode modeEnc = CS2 \<or> mode modeEnc = CS3" using cE by simp
  have mD: "mode modeDec = CS1 \<or> mode modeDec = CS2 \<or> mode modeDec = CS3" using cE cD by simp
  define cpre where "cpre = fst (cbc_encrypt blk k iv pre)"
  define iv1 where "iv1 = snd (cbc_encrypt blk k iv pre)"
  define E1 where "E1 = Encrypt blk (xorBytes pm iv1)"
  define E2 where "E2 = Encrypt blk (xorBytes (pt @ replicate (b - r) 0) E1)"
  define X where "X = take r E1"
  have l1: "length (Encrypt blk x) = b" if "length x = b" for x
    using ok that by (simp add: block_ok_def b)
  have liv1: "length iv1 = b" using ok liv d(2) by (simp add: iv1_def b)
  have lE1: "length E1 = b" using l1 liv1 d(3) by (simp add: E1_def)
  have lE2: "length E2 = b" using l1 lE1 d(4) kr'(3) by (simp add: E2_def)
  have lcpre: "length cpre = k * b" using ok liv d(2) by (simp add: cpre_def b)
  have lX: "length X = r" using lE1 kr'(3) by (simp add: X_def)
  have lD: "length (Decrypt blk E2) = b" using ok lE2 by (simp add: block_ok_def b)
  from encode_unaligned_run[OF cE(1) ok liv b[symmetric] mE d(2,3,4) kr'(2,3) iv1_def E1_def E2_def]
  obtain hE where
    runE: "encode (Caller 1) (Caller 0) (start_world modeEnc (pre @ pm @ pt)) =
             (None, \<lparr>heap = hE, self = modeEnc\<lparr>codec := CBCEncrypter blk E2\<rparr>\<rparr>)"
    and hEtmp: "hE tmp = E1 @ E2" by blast
  have encE: "encoder (self (start_world modeEnc (pre @ pm @ pt)))"
    using cE(2) by (simp add: start_world_def)
  have wEtmp: "heap wE tmp = E1 @ E2"
    unfolding wE d(1) CryptBlocks_def using encE runE hEtmp by simp
  have ctv: "ct = cpre @ (if m = CS1 then X @ E2 else E2 @ X)"
    unfolding ct d(1)
    using process_encode_unaligned[OF cE(1,2) ok liv b[symmetric] mE d(2,3,4) kr'(2,3) iv1_def E1_def E2_def]
    by (simp add: cE(3) cpre_def X_def)
  have py: "int n + (int b - int r) - 2 * int b = int (k * b)"
    and pz: "int n + (int b - int r) - int b = int (k * b + b)"
    using kr' by simp_all
  from decode_scratch_run[OF cD(1,2) ok liv b[symmetric] mD lcpre lX lE2 kr'(2,3)]
  obtain hS where
    runS: "seq (decode_scratch (Caller 1) (Caller 0) (mode modeDec) (int b) (int r) (int (k * b + b + r))
                  (int (k * b)) (int (k * b + b)))
             (start_world modeDec (cpre @ (if mode modeDec = CS1 then X @ E2 else E2 @ X))) =
           (None, \<lparr>heap = hS,
                   self = modeDec\<lparr>codec := CBCDecrypter blk (snd (cbc_decrypt blk k iv cpre))\<rparr>\<rparr>)"
    and hStmp: "hS tmp = X @ drop r (Decrypt blk E2) @ E2" by blast
  have Sv: "S = (None, \<lparr>heap = hS,
                   self = modeDec\<lparr>codec := CBCDecrypter blk (snd (cbc_decrypt blk k iv cpre))\<rparr>\<rparr>)"
    unfolding S py pz ctv using runS unfolding cD(3) kr'(1)[symmetric] by simp
  have tmpS: "heap (snd S) tmp = X @ drop r (Decrypt blk E2) @ E2"
    unfolding Sv using hStmp by simp
  have restored: "X @ drop r (Decrypt blk E2) = E1"
    unfolding X_def by (rule stolen_block_restored[OF ok b[symmetric] lE1 d(4) kr'(3) E2_def])
  have lXD: "length (X @ drop r (Decrypt blk E2)) = b" using restored lE1 by simp
  have partv: "partial = X"
    unfolding part ctv using lcpre lX lE2 kr' by (simp add: )
  have fullv: "full = E2"
    unfolding full ctv using lcpre lX lE2 kr' by (simp add: )
  have 1: "fst S = None" unfolding Sv by simp
  have 2: "take r (heap (snd S) tmp) = partial"
    unfolding tmpS partv using lX by simp
  have 3: "drop r (take b (heap (snd S) tmp)) = drop r (Decrypt blk full)"
    unfolding tmpS fullv using lX lD kr'(3) by simp
  have 4: "drop b (heap (snd S) tmp) = full"
    unfolding tmpS fullv using lX lD kr'(3) by simp
  have "take b (heap (snd S) tmp) = E1"
    unfolding tmpS using restored lXD by (simp add: append_assoc[symmetric] del: append_assoc)
  then have 5: "take b (heap (snd S) tmp) = take b (heap wE tmp)"
    unfolding wEtmp using lE1 by simp
  from 1 2 3 4 5 show ?thesis
    unfolding Let_def wE_def[symmetric] S_def[symmetric] by blast
qed

theorem stolen_bytes_recovered_witness:
  "block_ok toy \<and>
   NewCBCCTSEncrypter toy [10, 20] CS3 =
     Inr \<lparr>encoder = True, block = toy, codec = CBCEncrypter toy [10, 20], mode = CS3\<rparr> \<and>
   NewCBCCTSDecrypter toy [10, 20] CS3 =
     Inr \<lparr>encoder = False, block = toy, codec = CBCDecrypter toy [10, 20], mode = CS3\<rparr> \<and>
   length [1, 2, 3::byte] mod BlockSize toy \<noteq> 0 \<and> BlockSize toy + 1 \<le> length [1, 2, 3::byte] \<and>
   (2::nat) = BlockSize toy \<and> (1::nat) = length [1, 2, 3::byte] mod 2 \<and> (3::nat) = length [1, 2, 3::byte] \<and>
   [25, 37, 29] =
     fst (snd (process \<lparr>encoder = True, block = toy, codec = CBCEncrypter toy [10, 20], mode = CS3\<rparr>
                 [1, 2, 3])) \<and>
   [29::byte] = (if CS3 = CS1 then take 1 (drop (3 - 2 - 1) [25, 37, 29]) else drop (3 - 1) [25, 37, 29]) \<and>
   [25, 37::byte] = (if CS3 = CS1 then drop (3 - 2) [25, 37, 29] else take 2 (drop (3 - 2 - 1) [25, 37, 29])) \<and>
   (let wE = snd (CryptBlocks (Caller 1) (Caller 0)
                    (start_world \<lparr>encoder = True, block = toy, codec = CBCEncrypter toy [10, 20], mode = CS3\<rparr>
                       [1, 2, 3]));
        S = seq (decode_scratch (Caller 1) (Caller 0) CS3 (int 2) (int 1) (int 3)
                   (int 3 + (int 2 - int 1) - 2 * int 2) (int 3 + (int 2 - int 1) - int 2))
              (start_world \<lparr>encoder = False, block = toy, codec = CBCDecrypter toy [10, 20], mode = CS3\<rparr>
                 [25, 37, 29])
    in fst S = None \<and>
       take 1 (heap (snd S) tmp) = [29] \<and>
       drop 1 (take 2 (heap (snd S) tmp)) = drop 1 (Decrypt toy [25, 37]) \<and>
       drop 2 (heap (snd S) tmp) = [25, 37] \<and>
       take 2 (heap (snd S) tmp) = take 2 (heap wE tmp))"
proof -
  let ?E = "\<lparr>encoder = True, block = toy, codec = CBCEncrypter toy [10, 20], mode = CS3\<rparr>"
  let ?D = "\<lparr>encoder = False, block = toy, codec = CBCDecrypter toy [10, 20], mode = CS3\<rparr>"
  have h1: "block_ok toy" by (rule toy_ok)
  have h2: "NewCBCCTSEncrypter toy [10, 20] CS3 = Inr ?E"
    by (simp add: NewCBCCTSEncrypter_def NewCBCEncrypter_def CS1_def CS3_def toy_def)
  have h3: "NewCBCCTSDecrypter toy [10, 20] CS3 = Inr ?D"
    by (simp add: NewCBCCTSDecrypter_def NewCBCDecrypter_def CS1_def CS3_def toy_def)
  have h4: "length [1, 2, 3::byte] mod BlockSize toy \<noteq> 0" "BlockSize toy + 1 \<le> length [1, 2, 3::byte]"
    by (simp_all add: toy_def)
  have h5: "(2::nat) = BlockSize toy" by (simp add: toy_def)
  have h6: "(1::nat) = length [1, 2, 3::byte] mod 2" by simp
  have h7: "(3::nat) = length [1, 2, 3::byte]" by simp
  have h8: "[25, 37, 29] = fst (snd (process ?E [1, 2, 3]))" by code_simp
  have h9: "[29::byte] = (if CS3 = CS1 then take 1 (drop (3 - 2 - 1) [25, 37, 29]) else drop (3 - 1) [25, 37, 29])"
    by (simp add: CS1_def CS3_def)
  have h10: "[25, 37::byte] = (if CS3 = CS1 then drop (3 - 2) [25, 37, 29] else take 2 (drop (3 - 2 - 1) [25, 37, 29]))"
    by (simp add: CS1_def CS3_def)
  note w = stolen_bytes_recovered[OF h1 h2 h3 h4 h5 h6 h7 h8 h9 h10]
  from h1 h2 h3 h4 h5 h6 h7 h8 h9 h10 w show ?thesis by blast
qed


end
